theory Spec2Isabelle
  imports Main "HOL-Library.Word"
begin

section \<open>Python values, exceptions and dictionaries\<close>

text \<open>
  The module \<^verbatim>\<open>mdio/segy/geometry.py\<close> works on a dictionary of header arrays
  (\<^verbatim>\<open>index_headers\<close>), a dictionary of requested overrides (\<^verbatim>\<open>grid_overrides\<close>), a
  sequence of dimension names and an optional chunk shape.

  Header values are modelled as mathematical integers (\<open>int\<close>): the arrays hold 32-bit
  SEG-Y header words, on which the subtraction, remainder and floor division of the
  module do not overflow in practice, and which the 64-bit floating-point arrays that
  \<^verbatim>\<open>analyze_streamer_headers\<close> uses for the per-cable minima and maxima represent
  exactly. The one place where the module narrows a value, the 16-bit \<^verbatim>\<open>trace\<close> array,
  is modelled with its width.

  A value of the override dictionary is a Python \<^verbatim>\<open>bool\<close> or \<^verbatim>\<open>int\<close>; in arithmetic
  \<^verbatim>\<open>True\<close> counts as 1 and \<^verbatim>\<open>False\<close> as 0.
\<close>

datatype pyval = PBool bool | PInt int

fun pyval_int :: "pyval \<Rightarrow> int" where
  "pyval_int (PBool b) = (if b then 1 else 0)"
| "pyval_int (PInt n) = n"

text \<open>
  The four exception classes of \<^verbatim>\<open>mdio.segy.exceptions\<close> with the arguments the module
  passes to them, and the built-in exceptions that the modelled statements can raise.
\<close>

datatype error =
    GridOverrideIncompatibleError string string
  | GridOverrideKeysError string "string set"
  | GridOverrideMissingParameterError string "string set"
  | GridOverrideUnknownError string
  | KeyError
  | IndexError
  | TypeError
  | ValueError
  | AttributeError

text \<open>
  A Python dictionary keeps its keys in insertion order: an association list.
  \<^verbatim>\<open>d[k]\<close> raises \<^verbatim>\<open>KeyError\<close> on a missing key; \<^verbatim>\<open>d[k] = v\<close> overwrites the entry of
  an existing key where it stands and appends a new key at the end.
\<close>

type_synonym ('k, 'v) dict = "('k \<times> 'v) list"

definition dict_keys :: "('k, 'v) dict \<Rightarrow> 'k list" where
  "dict_keys d = map fst d"

definition dict_has :: "('k, 'v) dict \<Rightarrow> 'k \<Rightarrow> bool" where
  "dict_has d k = (k \<in> set (dict_keys d))"

definition dict_get :: "('k, 'v) dict \<Rightarrow> 'k \<Rightarrow> error + 'v" where
  "dict_get d k = (case map_of d k of None \<Rightarrow> Inl KeyError | Some v \<Rightarrow> Inr v)"

fun dict_set :: "('k, 'v) dict \<Rightarrow> 'k \<Rightarrow> 'v \<Rightarrow> ('k, 'v) dict" where
  "dict_set [] k v = [(k, v)]"
| "dict_set ((k', v') # d) k v =
     (if k' = k then (k, v) # d else (k', v') # dict_set d k v)"

type_synonym headers = "(string, int list) dict"
type_synonym overrides = "(string, pyval) dict"

section \<open>The NumPy operations the module uses\<close>

text \<open>
  \<^verbatim>\<open>np.unique\<close> returns the distinct values in ascending order. \<^verbatim>\<open>np.empty\<close> returns
  an array whose cells are not initialised; the model fills it with zeros, and the
  theorems below only speak about cells the code has written. \<^verbatim>\<open>np.min\<close> and
  \<^verbatim>\<open>np.max\<close> raise \<^verbatim>\<open>ValueError\<close> on an empty array, and indexing by a boolean mask of
  another length raises \<^verbatim>\<open>IndexError\<close>.
\<close>

definition np_unique :: "int list \<Rightarrow> int list" where
  "np_unique xs = sort (remdups xs)"

definition np_sort :: "int list \<Rightarrow> int list" where
  "np_sort xs = sort xs"

definition np_empty :: "nat \<Rightarrow> int list" where
  "np_empty n = replicate n 0"

definition np_min :: "int list \<Rightarrow> error + int" where
  "np_min xs = (case xs of [] \<Rightarrow> Inl ValueError | x # r \<Rightarrow> Inr (fold min r x))"

definition np_max :: "int list \<Rightarrow> error + int" where
  "np_max xs = (case xs of [] \<Rightarrow> Inl ValueError | x # r \<Rightarrow> Inr (fold max r x))"

definition np_mask :: "int list \<Rightarrow> bool list \<Rightarrow> error + int list" where
  "np_mask xs m =
     (if length m \<noteq> length xs then Inl IndexError
      else Inr (map fst (filter snd (zip xs m))))"

text \<open>
  On integer arrays NumPy's \<^verbatim>\<open>%\<close> and \<^verbatim>\<open>//\<close> round towards minus infinity, as \<open>mod\<close> and
  \<open>div\<close> on \<open>int\<close> do, and give 0 (with a warning, not an exception) where the divisor
  is 0.
\<close>

definition np_mod :: "int \<Rightarrow> int \<Rightarrow> int" where
  "np_mod a b = (if b = 0 then 0 else a mod b)"

definition np_floor_divide :: "int \<Rightarrow> int \<Rightarrow> int" where
  "np_floor_divide a b = (if b = 0 then 0 else a div b)"

section \<open>Streamer geometry analysis\<close>

datatype StreamerShotGeometryType = A | B | C

text \<open>
  The first loop of \<^verbatim>\<open>analyze_streamer_headers\<close>: for every unique cable, the minimum
  and maximum channel of the traces on that cable, written at the cable's position.
\<close>

fun chan_range_loop ::
  "headers \<Rightarrow> (nat \<times> int) list \<Rightarrow> int list \<times> int list \<Rightarrow> error + (int list \<times> int list)"
where
  "chan_range_loop index_headers [] (cable_chan_min, cable_chan_max) =
     Inr (cable_chan_min, cable_chan_max)"
| "chan_range_loop index_headers ((idx, cable) # rest) (cable_chan_min, cable_chan_max) =
     (case dict_get index_headers ''cable'' of Inl e \<Rightarrow> Inl e | Inr cab \<Rightarrow>
     (case dict_get index_headers ''channel'' of Inl e \<Rightarrow> Inl e | Inr chan \<Rightarrow>
     (case np_mask chan (map (\<lambda>c. c = cable) cab) of Inl e \<Rightarrow> Inl e | Inr current_cable \<Rightarrow>
     (case np_min current_cable of Inl e \<Rightarrow> Inl e | Inr lo \<Rightarrow>
     (case np_max current_cable of Inl e \<Rightarrow> Inl e | Inr hi \<Rightarrow>
        chan_range_loop index_headers rest
          (cable_chan_min[idx := lo], cable_chan_max[idx := hi]))))))"

text \<open>
  The second, nested loop: the type starts as B and becomes A at every pair of
  different cables whose channel ranges overlap.
\<close>

definition overlap_scan :: "int list \<Rightarrow> int list \<Rightarrow> int list \<Rightarrow> StreamerShotGeometryType" where
  "overlap_scan unique_cables cable_chan_min cable_chan_max =
     fold (\<lambda>(idx, cable) geom_type.
        fold (\<lambda>(idx2, cable2) geom_type.
           if cable2 = cable then geom_type
           else if cable_chan_min ! idx2 < cable_chan_max ! idx
                   \<and> cable_chan_max ! idx2 > cable_chan_min ! idx then A
           else geom_type)
          (enumerate 0 unique_cables) geom_type)
       (enumerate 0 unique_cables) B"

definition analyze_streamer_headers ::
  "headers \<Rightarrow> error + (int list \<times> int list \<times> int list \<times> StreamerShotGeometryType)"
where
  "analyze_streamer_headers index_headers =
     (case dict_get index_headers ''cable'' of Inl e \<Rightarrow> Inl e | Inr cab \<Rightarrow>
      let unique_cables = np_sort (np_unique cab) in
     (case chan_range_loop index_headers (enumerate 0 unique_cables)
             (np_empty (length unique_cables), np_empty (length unique_cables)) of
        Inl e \<Rightarrow> Inl e
      | Inr (cable_chan_min, cable_chan_max) \<Rightarrow>
          Inr (unique_cables, cable_chan_min, cable_chan_max,
               overlap_scan unique_cables cable_chan_min cable_chan_max)))"

text \<open>
  The notions the specification uses for a cable \<open>c\<close>: the channels of the traces on
  that cable, the ends of their range, and the overlap test between two cables.
\<close>

definition cable_channels :: "int list \<Rightarrow> int list \<Rightarrow> int \<Rightarrow> int list" where
  "cable_channels cab chan c = map fst (filter (\<lambda>p. snd p = c) (zip chan cab))"

definition chan_lo :: "int list \<Rightarrow> int list \<Rightarrow> int \<Rightarrow> int" where
  "chan_lo cab chan c = Min (set (cable_channels cab chan c))"

definition chan_hi :: "int list \<Rightarrow> int list \<Rightarrow> int \<Rightarrow> int" where
  "chan_hi cab chan c = Max (set (cable_channels cab chan c))"

definition ranges_overlap :: "int list \<Rightarrow> int list \<Rightarrow> int \<Rightarrow> int \<Rightarrow> bool" where
  "ranges_overlap cab chan ci cj =
     (chan_lo cab chan cj < chan_hi cab chan ci \<and> chan_hi cab chan cj > chan_lo cab chan ci)"

section \<open>Automatic trace index\<close>

text \<open>
  The counter of \<^verbatim>\<open>create_counter\<close> is a tree of dictionaries, one level per grouping
  header, with an integer count at every leaf. Each call of \<^verbatim>\<open>create_counter\<close> builds a
  new object, so no two branches share a sub-dictionary and the tree is a value.
\<close>

datatype counter = Leaf int | Node "(int \<times> counter) list"

function create_counter :: "nat \<Rightarrow> nat \<Rightarrow> headers \<Rightarrow> string list \<Rightarrow> error + counter" where
  "create_counter depth total_depth unique_headers header_names =
     (if depth = total_depth then Inr (Leaf 0)
      else if depth \<ge> length header_names then Inl IndexError
      else (case dict_get unique_headers (header_names ! depth) of
              Inl e \<Rightarrow> Inl e
            | Inr vals \<Rightarrow>
                if vals = [] then Inr (Node [])
                else (case create_counter (depth + 1) total_depth unique_headers header_names of
                        Inl e \<Rightarrow> Inl e
                      | Inr sub \<Rightarrow> Inr (Node (fold (\<lambda>header c. dict_set c header sub) vals [])))))"
  by pat_completeness auto
termination
  by (relation "measure (\<lambda>(depth, total_depth, unique_headers, header_names).
        length header_names - depth)") auto

text \<open>
  The created \<^verbatim>\<open>trace\<close> array has the element type \<^verbatim>\<open>dtype\<close>; a count stored in it is
  narrowed to that width, in two's complement. This is what NumPy 1 does with a Python
  integer that is out of the range of the element type; NumPy 2 raises \<^verbatim>\<open>OverflowError\<close>
  there instead.
\<close>

datatype dtype = int16 | int32 | int64

fun np_cast :: "dtype \<Rightarrow> int \<Rightarrow> int" where
  "np_cast int16 v = sint (word_of_int v :: 16 word)"
| "np_cast int32 v = sint (word_of_int v :: 32 word)"
| "np_cast int64 v = sint (word_of_int v :: 64 word)"

text \<open>
  A function that changes the header dictionary returns the dictionary as it stands
  after the call, together with the exception raised or the value returned.
\<close>

type_synonym 'a effect = "headers \<times> (error + 'a)"

text \<open>
  One step of the walk of \<^verbatim>\<open>create_trace_index\<close>: follow the header values of a trace
  down the counter, add 1 to the count at the end of the path and return the new count.
  The path of length 1 is the branch \<^verbatim>\<open>depth == 1\<close> of the source; on a longer path the
  source first descends along \<^verbatim>\<open>idx_values[:-1]\<close>.
\<close>

fun incr_path :: "counter \<Rightarrow> int list \<Rightarrow> error + (counter \<times> int)" where
  "incr_path (Leaf n) idx_values = Inl TypeError"
| "incr_path (Node d) [] = Inl IndexError"
| "incr_path (Node d) [v] =
     (case dict_get d v of
        Inl e \<Rightarrow> Inl e
      | Inr (Leaf n) \<Rightarrow> Inr (Node (dict_set d v (Leaf (n + 1))), n + 1)
      | Inr (Node _) \<Rightarrow> Inl TypeError)"
| "incr_path (Node d) (v # w # vs) =
     (case dict_get d v of
        Inl e \<Rightarrow> Inl e
      | Inr sub_counter \<Rightarrow>
          (case incr_path sub_counter (w # vs) of
             Inl e \<Rightarrow> Inl e
           | Inr (sub_counter', n) \<Rightarrow> Inr (Node (dict_set d v sub_counter'), n)))"

definition set_item :: "headers \<Rightarrow> string \<Rightarrow> nat \<Rightarrow> int \<Rightarrow> error + headers" where
  "set_item index_headers key idx v =
     (case dict_get index_headers key of
        Inl e \<Rightarrow> Inl e
      | Inr arr \<Rightarrow>
          if idx \<ge> length arr then Inl IndexError
          else Inr (dict_set index_headers key (arr[idx := v])))"

fun trace_index_loop ::
  "dtype \<Rightarrow> int list list \<Rightarrow> nat \<Rightarrow> counter \<Rightarrow> headers \<Rightarrow> unit effect"
where
  "trace_index_loop dt [] idx counter index_headers = (index_headers, Inr ())"
| "trace_index_loop dt (idx_values # rest) idx counter index_headers =
     (case incr_path counter idx_values of
        Inl e \<Rightarrow> (index_headers, Inl e)
      | Inr (counter', n) \<Rightarrow>
          (case set_item index_headers ''trace'' idx (np_cast dt n) of
             Inl e \<Rightarrow> (index_headers, Inl e)
           | Inr index_headers' \<Rightarrow> trace_index_loop dt rest (idx + 1) counter' index_headers'))"

text \<open>
  The generator \<^verbatim>\<open>index_headers[header_names[i]] for i in range(depth)\<close> and Python's
  \<^verbatim>\<open>zip\<close> of the arrays it yields, which stops with the shortest array.
\<close>

fun columns :: "headers \<Rightarrow> string list \<Rightarrow> nat list \<Rightarrow> error + int list list" where
  "columns index_headers header_names [] = Inr []"
| "columns index_headers header_names (i # is) =
     (if i \<ge> length header_names then Inl IndexError
      else (case dict_get index_headers (header_names ! i) of
              Inl e \<Rightarrow> Inl e
            | Inr col \<Rightarrow>
                (case columns index_headers header_names is of
                   Inl e \<Rightarrow> Inl e
                 | Inr cols \<Rightarrow> Inr (col # cols))))"

definition zip_star :: "int list list \<Rightarrow> int list list" where
  "zip_star cols =
     (if cols = [] then []
      else map (\<lambda>k. map (\<lambda>col. col ! k) cols) [0..<Min (set (map length cols))])"

definition create_trace_index ::
  "nat \<Rightarrow> counter \<Rightarrow> headers \<Rightarrow> string list \<Rightarrow> dtype \<Rightarrow> unit effect"
where
  "create_trace_index depth counter index_headers header_names dt =
     (if header_names = [] then (index_headers, Inl IndexError)
      else (case dict_get index_headers (header_names ! 0) of
              Inl e \<Rightarrow> (index_headers, Inl e)
            | Inr first \<Rightarrow>
                let index_headers1 = dict_set index_headers ''trace'' (np_empty (length first)) in
                if depth = 0 then (index_headers1, Inr ())
                else (case columns index_headers1 header_names [0..<depth] of
                        Inl e \<Rightarrow> (index_headers1, Inl e)
                      | Inr cols \<Rightarrow>
                          trace_index_loop dt (zip_star cols) 0 counter index_headers1)))"

text \<open>
  The first loop of \<^verbatim>\<open>analyze_non_indexed_headers\<close>: every header except \<^verbatim>\<open>trace\<close> is
  a grouping header.
\<close>

fun grouping_headers ::
  "headers \<Rightarrow> string list \<Rightarrow> headers \<times> nat \<times> string list \<Rightarrow>
   error + (headers \<times> nat \<times> string list)"
where
  "grouping_headers index_headers [] acc = Inr acc"
| "grouping_headers index_headers (header_key # rest) (unique_headers, total_depth, header_names) =
     (if header_key \<noteq> ''trace'' then
        (case dict_get index_headers header_key of
           Inl e \<Rightarrow> Inl e
         | Inr arr \<Rightarrow>
             grouping_headers index_headers rest
               (dict_set unique_headers header_key (np_sort (np_unique arr)),
                total_depth + 1, header_names @ [header_key]))
      else grouping_headers index_headers rest (unique_headers, total_depth, header_names))"

definition analyze_non_indexed_headers :: "headers \<Rightarrow> dtype \<Rightarrow> unit effect" where
  "analyze_non_indexed_headers index_headers dt =
     (case grouping_headers index_headers (dict_keys index_headers) ([], 0, []) of
        Inl e \<Rightarrow> (index_headers, Inl e)
      | Inr (unique_headers, total_depth, header_names) \<Rightarrow>
          (case create_counter 0 total_depth unique_headers header_names of
             Inl e \<Rightarrow> (index_headers, Inl e)
           | Inr counter \<Rightarrow>
               create_trace_index total_depth counter index_headers header_names dt))"

section \<open>Grid override commands\<close>

text \<open>
  The five concrete subclasses of \<^verbatim>\<open>GridOverrideCommand\<close>. \<^verbatim>\<open>name\<close> is the class name;
  \<^verbatim>\<open>required_keys\<close> and \<^verbatim>\<open>required_parameters\<close> are class attributes, \<open>None\<close> where
  the class sets them to \<^verbatim>\<open>None\<close>. \<^verbatim>\<open>NonBinned\<close> inherits \<^verbatim>\<open>validate\<close>, \<^verbatim>\<open>transform\<close>
  and \<^verbatim>\<open>transform_index_names\<close> from \<^verbatim>\<open>DuplicateIndex\<close>.
\<close>

datatype command = AutoChannelWrap | CalculateCable | ChannelWrap | NonBinned | DuplicateIndex

fun name :: "command \<Rightarrow> string" where
  "name AutoChannelWrap = ''AutoChannelWrap''"
| "name CalculateCable = ''CalculateCable''"
| "name ChannelWrap = ''ChannelWrap''"
| "name NonBinned = ''NonBinned''"
| "name DuplicateIndex = ''DuplicateIndex''"

fun required_keys :: "command \<Rightarrow> string set option" where
  "required_keys DuplicateIndex = None"
| "required_keys NonBinned = None"
| "required_keys AutoChannelWrap = Some {''shot_point'', ''cable'', ''channel''}"
| "required_keys ChannelWrap = Some {''shot_point'', ''cable'', ''channel''}"
| "required_keys CalculateCable = Some {''shot_point'', ''cable'', ''channel''}"

fun required_parameters :: "command \<Rightarrow> string set option" where
  "required_parameters DuplicateIndex = None"
| "required_parameters NonBinned = Some {''chunksize''}"
| "required_parameters AutoChannelWrap = None"
| "required_parameters ChannelWrap = Some {''ChannelsPerCable''}"
| "required_parameters CalculateCable = Some {''ChannelsPerCable''}"

definition check_required_keys :: "command \<Rightarrow> headers \<Rightarrow> error + unit" where
  "check_required_keys self index_headers =
     (case required_keys self of
        None \<Rightarrow> Inl AttributeError
      | Some keys \<Rightarrow>
          if \<not> keys \<subseteq> set (dict_keys index_headers)
          then Inl (GridOverrideKeysError (name self) keys)
          else Inr ())"

definition check_required_params :: "command \<Rightarrow> overrides \<Rightarrow> error + unit" where
  "check_required_params self grid_overrides =
     (case required_parameters self of
        None \<Rightarrow> Inr ()
      | Some params \<Rightarrow>
          let passed_parameters = set (dict_keys grid_overrides) in
          if \<not> params \<subseteq> passed_parameters
          then Inl (GridOverrideMissingParameterError (name self) (params - passed_parameters))
          else Inr ())"

definition DuplicateIndex_validate :: "command \<Rightarrow> headers \<Rightarrow> overrides \<Rightarrow> error + unit" where
  "DuplicateIndex_validate self index_headers grid_overrides =
     (if dict_has grid_overrides ''ChannelWrap''
        then Inl (GridOverrideIncompatibleError (name self) ''ChannelWrap'')
      else if dict_has grid_overrides ''CalculateCable''
        then Inl (GridOverrideIncompatibleError (name self) ''CalculateCable'')
      else (case (if required_keys self \<noteq> None then check_required_keys self index_headers
                  else Inr ()) of
              Inl e \<Rightarrow> Inl e
            | Inr _ \<Rightarrow> check_required_params self grid_overrides))"

definition AutoChannelWrap_validate :: "command \<Rightarrow> headers \<Rightarrow> overrides \<Rightarrow> error + unit" where
  "AutoChannelWrap_validate self index_headers grid_overrides =
     (if dict_has grid_overrides ''ChannelWrap''
        then Inl (GridOverrideIncompatibleError (name self) ''ChannelWrap'')
      else if dict_has grid_overrides ''CalculateCable''
        then Inl (GridOverrideIncompatibleError (name self) ''CalculateCable'')
      else (case check_required_keys self index_headers of
              Inl e \<Rightarrow> Inl e
            | Inr _ \<Rightarrow> check_required_params self grid_overrides))"

definition ChannelWrap_validate :: "command \<Rightarrow> headers \<Rightarrow> overrides \<Rightarrow> error + unit" where
  "ChannelWrap_validate self index_headers grid_overrides =
     (if dict_has grid_overrides ''AutoChannelWrap''
        then Inl (GridOverrideIncompatibleError (name self) ''AutoCableChannel'')
      else (case check_required_keys self index_headers of
              Inl e \<Rightarrow> Inl e
            | Inr _ \<Rightarrow> check_required_params self grid_overrides))"

definition CalculateCable_validate :: "command \<Rightarrow> headers \<Rightarrow> overrides \<Rightarrow> error + unit" where
  "CalculateCable_validate self index_headers grid_overrides =
     (if dict_has grid_overrides ''AutoChannelWrap''
        then Inl (GridOverrideIncompatibleError (name self) ''AutoCableChannel'')
      else (case check_required_keys self index_headers of
              Inl e \<Rightarrow> Inl e
            | Inr _ \<Rightarrow> check_required_params self grid_overrides))"

fun validate :: "command \<Rightarrow> headers \<Rightarrow> overrides \<Rightarrow> error + unit" where
  "validate DuplicateIndex = DuplicateIndex_validate DuplicateIndex"
| "validate NonBinned = DuplicateIndex_validate NonBinned"
| "validate AutoChannelWrap = AutoChannelWrap_validate AutoChannelWrap"
| "validate ChannelWrap = ChannelWrap_validate ChannelWrap"
| "validate CalculateCable = CalculateCable_validate CalculateCable"

text \<open>
  \<^verbatim>\<open>DuplicateIndex.transform\<close> calls \<^verbatim>\<open>analyze_non_indexed_headers\<close> without a \<^verbatim>\<open>dtype\<close>,
  that is with the default \<^verbatim>\<open>np.int16\<close>.
\<close>

definition DuplicateIndex_transform :: "command \<Rightarrow> headers \<Rightarrow> overrides \<Rightarrow> unit effect" where
  "DuplicateIndex_transform self index_headers grid_overrides =
     (case validate self index_headers grid_overrides of
        Inl e \<Rightarrow> (index_headers, Inl e)
      | Inr _ \<Rightarrow> analyze_non_indexed_headers index_headers int16)"

text \<open>
  The loop of \<^verbatim>\<open>AutoChannelWrap.transform\<close> for geometry type B. \<^verbatim>\<open>np.where\<close> gives the
  positions of the traces on the cable; the assignment through these positions changes
  the \<^verbatim>\<open>channel\<close> array in place.
\<close>

definition np_where :: "bool list \<Rightarrow> nat list" where
  "np_where m = filter (\<lambda>i. m ! i) [0..<length m]"

fun channel_wrap_loop :: "(nat \<times> int) list \<Rightarrow> int list \<Rightarrow> headers \<Rightarrow> unit effect" where
  "channel_wrap_loop [] cable_chan_min index_headers = (index_headers, Inr ())"
| "channel_wrap_loop ((idx, cable) # rest) cable_chan_min index_headers =
     (case dict_get index_headers ''cable'' of
        Inl e \<Rightarrow> (index_headers, Inl e)
      | Inr cab \<Rightarrow>
          let cable_idxs = np_where (map (\<lambda>c. c = cable) cab) in
          if idx \<ge> length cable_chan_min then (index_headers, Inl IndexError)
          else
            let cc_min = cable_chan_min ! idx in
            (case dict_get index_headers ''channel'' of
               Inl e \<Rightarrow> (index_headers, Inl e)
             | Inr chan \<Rightarrow>
                 if \<exists>i\<in>set cable_idxs. i \<ge> length chan then (index_headers, Inl IndexError)
                 else channel_wrap_loop rest cable_chan_min
                        (dict_set index_headers ''channel''
                           (fold (\<lambda>i arr. arr[i := chan ! i - cc_min + 1]) cable_idxs chan))))"

definition AutoChannelWrap_transform :: "command \<Rightarrow> headers \<Rightarrow> overrides \<Rightarrow> unit effect" where
  "AutoChannelWrap_transform self index_headers grid_overrides =
     (case validate self index_headers grid_overrides of
        Inl e \<Rightarrow> (index_headers, Inl e)
      | Inr _ \<Rightarrow>
          (case analyze_streamer_headers index_headers of
             Inl e \<Rightarrow> (index_headers, Inl e)
           | Inr (unique_cables, cable_chan_min, cable_chan_max, geom_type) \<Rightarrow>
               if geom_type = B
               then channel_wrap_loop (enumerate 0 unique_cables) cable_chan_min index_headers
               else (index_headers, Inr ())))"

definition ChannelWrap_transform :: "command \<Rightarrow> headers \<Rightarrow> overrides \<Rightarrow> unit effect" where
  "ChannelWrap_transform self index_headers grid_overrides =
     (case validate self index_headers grid_overrides of
        Inl e \<Rightarrow> (index_headers, Inl e)
      | Inr _ \<Rightarrow>
          (case dict_get grid_overrides ''ChannelsPerCable'' of
             Inl e \<Rightarrow> (index_headers, Inl e)
           | Inr channels_per_cable \<Rightarrow>
               (case dict_get index_headers ''channel'' of
                  Inl e \<Rightarrow> (index_headers, Inl e)
                | Inr chan \<Rightarrow>
                    (dict_set index_headers ''channel''
                       (map (\<lambda>c. np_mod (c - 1) (pyval_int channels_per_cable) + 1) chan),
                     Inr ()))))"

definition CalculateCable_transform :: "command \<Rightarrow> headers \<Rightarrow> overrides \<Rightarrow> unit effect" where
  "CalculateCable_transform self index_headers grid_overrides =
     (case validate self index_headers grid_overrides of
        Inl e \<Rightarrow> (index_headers, Inl e)
      | Inr _ \<Rightarrow>
          (case dict_get grid_overrides ''ChannelsPerCable'' of
             Inl e \<Rightarrow> (index_headers, Inl e)
           | Inr channels_per_cable \<Rightarrow>
               (case dict_get index_headers ''channel'' of
                  Inl e \<Rightarrow> (index_headers, Inl e)
                | Inr chan \<Rightarrow>
                    (dict_set index_headers ''cable''
                       (map (\<lambda>c. np_floor_divide (c - 1) (pyval_int channels_per_cable) + 1) chan),
                     Inr ()))))"

fun transform :: "command \<Rightarrow> headers \<Rightarrow> overrides \<Rightarrow> unit effect" where
  "transform DuplicateIndex = DuplicateIndex_transform DuplicateIndex"
| "transform NonBinned = DuplicateIndex_transform NonBinned"
| "transform AutoChannelWrap = AutoChannelWrap_transform AutoChannelWrap"
| "transform ChannelWrap = ChannelWrap_transform ChannelWrap"
| "transform CalculateCable = CalculateCable_transform CalculateCable"

fun transform_index_names :: "command \<Rightarrow> string list \<Rightarrow> string list" where
  "transform_index_names DuplicateIndex index_names = index_names @ [''trace'']"
| "transform_index_names NonBinned index_names = index_names @ [''trace'']"
| "transform_index_names AutoChannelWrap index_names = index_names"
| "transform_index_names ChannelWrap index_names = index_names"
| "transform_index_names CalculateCable index_names = index_names"

text \<open>
  Python's \<^verbatim>\<open>list.insert\<close>: a negative position counts from the end, and a position
  outside the list is moved to the nearer end. \<^verbatim>\<open>list(None)\<close> raises \<^verbatim>\<open>TypeError\<close>.
\<close>

definition list_insert :: "'a list \<Rightarrow> int \<Rightarrow> 'a \<Rightarrow> 'a list" where
  "list_insert xs i x =
     (let n = int (length xs);
          j = (if i < 0 then max 0 (i + n) else min i n)
      in take (nat j) xs @ [x] @ drop (nat j) xs)"

fun transform_chunksize ::
  "command \<Rightarrow> pyval list option \<Rightarrow> overrides \<Rightarrow> error + pyval list option"
where
  "transform_chunksize DuplicateIndex chunksize grid_overrides =
     (case chunksize of
        None \<Rightarrow> Inl TypeError
      | Some new_chunks \<Rightarrow> Inr (Some (list_insert new_chunks (- 1) (PInt 1))))"
| "transform_chunksize NonBinned chunksize grid_overrides =
     (case chunksize of
        None \<Rightarrow> Inl TypeError
      | Some new_chunks \<Rightarrow>
          (case dict_get grid_overrides ''chunksize'' of
             Inl e \<Rightarrow> Inl e
           | Inr v \<Rightarrow> Inr (Some (list_insert new_chunks (- 1) v))))"
| "transform_chunksize AutoChannelWrap chunksize grid_overrides = Inr chunksize"
| "transform_chunksize ChannelWrap chunksize grid_overrides = Inr chunksize"
| "transform_chunksize CalculateCable chunksize grid_overrides = Inr chunksize"

section \<open>The executor of grid overrides\<close>

definition commands :: "(string, command) dict" where
  "commands =
     [(''AutoChannelWrap'', AutoChannelWrap),
      (''CalculateCable'', CalculateCable),
      (''ChannelWrap'', ChannelWrap),
      (''NonBinned'', NonBinned),
      (''HasDuplicates'', DuplicateIndex)]"

definition get_allowed_parameters :: "string set" where
  "get_allowed_parameters =
     fold (\<lambda>command parameters.
             case required_parameters command of
               None \<Rightarrow> parameters
             | Some ps \<Rightarrow> parameters \<union> ps)
          (map snd commands) {}"

definition parameters :: "string set" where
  "parameters = get_allowed_parameters"

text \<open>
  The loop of \<^verbatim>\<open>GridOverrider.run\<close> over the keys of \<^verbatim>\<open>grid_overrides\<close>, in their order. An
  exception ends the run; the header dictionary keeps what earlier iterations did to it.
\<close>

fun run_loop ::
  "string list \<Rightarrow> overrides \<Rightarrow> headers \<Rightarrow> string list \<Rightarrow> pyval list option \<Rightarrow>
   (string list \<times> pyval list option) effect"
where
  "run_loop [] grid_overrides index_headers index_names chunksize =
     (index_headers, Inr (index_names, chunksize))"
| "run_loop (override # rest) grid_overrides index_headers index_names chunksize =
     (if override \<in> parameters
        then run_loop rest grid_overrides index_headers index_names chunksize
      else (case dict_get commands override of
              Inl _ \<Rightarrow> (index_headers, Inl (GridOverrideUnknownError override))
            | Inr cmd \<Rightarrow>
                (case transform cmd index_headers grid_overrides of
                   (index_headers', Inl e) \<Rightarrow> (index_headers', Inl e)
                 | (index_headers', Inr _) \<Rightarrow>
                     let index_names' = transform_index_names cmd index_names in
                     (case transform_chunksize cmd chunksize grid_overrides of
                        Inl e \<Rightarrow> (index_headers', Inl e)
                      | Inr chunksize' \<Rightarrow>
                          run_loop rest grid_overrides index_headers' index_names' chunksize'))))"

definition run ::
  "headers \<Rightarrow> string list \<Rightarrow> overrides \<Rightarrow> pyval list option \<Rightarrow>
   (string list \<times> pyval list option) effect"
where
  "run index_headers index_names grid_overrides chunksize =
     run_loop (dict_keys grid_overrides) grid_overrides index_headers index_names chunksize"

section \<open>Notions of the specification\<close>

text \<open>
  The grouping headers of a header set are all its headers except \<^verbatim>\<open>trace\<close>, in the order
  of the dictionary; \<open>grouping_columns\<close> are their arrays. The group of trace \<open>i\<close> is the
  tuple of its grouping header values; its ordinal is the number of traces up to and
  including \<open>i\<close>, in file order, that have the same tuple. \<open>group_positions\<close> are the
  positions of the traces of one group among the first \<open>n\<close> traces, in file order.
\<close>

definition arr_of :: "headers \<Rightarrow> string \<Rightarrow> int list" where
  "arr_of index_headers key = (case dict_get index_headers key of Inl _ \<Rightarrow> [] | Inr arr \<Rightarrow> arr)"

definition grouping_names :: "headers \<Rightarrow> string list" where
  "grouping_names index_headers = filter (\<lambda>key. key \<noteq> ''trace'') (dict_keys index_headers)"

definition grouping_columns :: "headers \<Rightarrow> int list list" where
  "grouping_columns index_headers = map (arr_of index_headers) (grouping_names index_headers)"

definition group_key :: "int list list \<Rightarrow> nat \<Rightarrow> int list" where
  "group_key cols i = map (\<lambda>col. col ! i) cols"

definition ordinal :: "int list list \<Rightarrow> nat \<Rightarrow> nat" where
  "ordinal cols i = length (filter (\<lambda>j. group_key cols j = group_key cols i) [0..<Suc i])"

definition group_positions :: "int list list \<Rightarrow> nat \<Rightarrow> int list \<Rightarrow> nat list" where
  "group_positions cols n g = filter (\<lambda>i. group_key cols i = g) [0..<n]"

text \<open>Reading \<^verbatim>\<open>index_headers[key][idx]\<close>, and the count at the end of a path of a counter.\<close>

definition get_item :: "headers \<Rightarrow> string \<Rightarrow> nat \<Rightarrow> error + int" where
  "get_item index_headers key idx =
     (case dict_get index_headers key of
        Inl e \<Rightarrow> Inl e
      | Inr arr \<Rightarrow> if idx \<ge> length arr then Inl IndexError else Inr (arr ! idx))"

fun counter_get :: "counter \<Rightarrow> int list \<Rightarrow> int option" where
  "counter_get (Leaf n) [] = Some n"
| "counter_get (Leaf n) (v # vs) = None"
| "counter_get (Node d) [] = None"
| "counter_get (Node d) (v # vs) =
     (case map_of d v of None \<Rightarrow> None | Some sub_counter \<Rightarrow> counter_get sub_counter vs)"

text \<open>The header that the transform of a command writes.\<close>

fun target :: "command \<Rightarrow> string" where
  "target DuplicateIndex = ''trace''"
| "target NonBinned = ''trace''"
| "target AutoChannelWrap = ''channel''"
| "target ChannelWrap = ''channel''"
| "target CalculateCable = ''cable''"

section \<open>Geometry classification\<close>

lemma mask_cable_channels:
  "length chan = length cab \<Longrightarrow>
   np_mask chan (map (\<lambda>c. c = cable) cab) = Inr (cable_channels cab chan cable)"
  unfolding np_mask_def cable_channels_def
  by (induction chan cab rule: list_induct2) auto

lemma cable_channels_nonempty:
  "length chan = length cab \<Longrightarrow> c \<in> set cab \<Longrightarrow> cable_channels cab chan c \<noteq> []"
  unfolding cable_channels_def
  by (induction chan cab rule: list_induct2) auto

lemma np_min_Min: "xs \<noteq> [] \<Longrightarrow> np_min xs = Inr (Min (set xs))"
  using Min.set_eq_fold[of "hd xs" "tl xs"] by (cases xs) (simp_all add: np_min_def)

lemma np_max_Max: "xs \<noteq> [] \<Longrightarrow> np_max xs = Inr (Max (set xs))"
  using Max.set_eq_fold[of "hd xs" "tl xs"] by (cases xs) (simp_all add: np_max_def)

lemma chan_range_loop_eq:
  assumes "dict_get h ''cable'' = Inr cab" "dict_get h ''channel'' = Inr chan"
    "length chan = length cab"
  shows "set cs \<subseteq> set cab \<Longrightarrow> k + length cs \<le> length mn \<Longrightarrow> length mx = length mn \<Longrightarrow>
    chan_range_loop h (enumerate k cs) (mn, mx) =
      Inr (take k mn @ map (chan_lo cab chan) cs @ drop (k + length cs) mn,
           take k mx @ map (chan_hi cab chan) cs @ drop (k + length cs) mx)"
proof (induction cs arbitrary: k mn mx)
  case Nil
  then show ?case by simp
next
  case (Cons c cs)
  have ne: "cable_channels cab chan c \<noteq> []"
    using Cons.prems(1) assms(3) by (simp add: cable_channels_nonempty)
  have k: "k < length mn" "k < length mx" using Cons.prems by simp_all
  have ih: "chan_range_loop h (enumerate (Suc k) cs)
      (mn[k := chan_lo cab chan c], mx[k := chan_hi cab chan c]) =
      Inr (take (Suc k) (mn[k := chan_lo cab chan c]) @ map (chan_lo cab chan) cs
             @ drop (Suc k + length cs) (mn[k := chan_lo cab chan c]),
           take (Suc k) (mx[k := chan_hi cab chan c]) @ map (chan_hi cab chan) cs
             @ drop (Suc k + length cs) (mx[k := chan_hi cab chan c]))"
    using Cons.prems by (intro Cons.IH) simp_all
  show ?case
    using k
    by (simp add: assms mask_cable_channels ne np_min_Min np_max_Max ih
        chan_lo_def[symmetric] chan_hi_def[symmetric] take_Suc_conv_app_nth)
qed

lemma fold_flag:
  "fold (\<lambda>x g. if P x then A else g) xs g0 = (if \<exists>x\<in>set xs. P x then A else g0)"
  by (induction xs arbitrary: g0) auto

lemma overlap_scan_eq:
  "overlap_scan uc mn mx =
    (if \<exists>i<length uc. \<exists>j<length uc. uc ! j \<noteq> uc ! i \<and> mn ! j < mx ! i \<and> mx ! j > mn ! i
     then A else B)"
proof -
  have inner: "\<And>idx cable g. fold (\<lambda>(idx2, cable2) geom_type.
           if cable2 = cable then geom_type
           else if mn ! idx2 < mx ! idx \<and> mx ! idx2 > mn ! idx then A
           else geom_type) (enumerate 0 uc) g =
      (if \<exists>x\<in>set (enumerate 0 uc). snd x \<noteq> cable \<and> mn ! fst x < mx ! idx \<and> mx ! fst x > mn ! idx
       then A else g)"
    by (subst fold_flag[symmetric]) (rule arg_cong[where f="\<lambda>f. fold f _ _"], auto simp: fun_eq_iff)
  have "overlap_scan uc mn mx =
     fold (\<lambda>y g. if (\<exists>x\<in>set (enumerate 0 uc). snd x \<noteq> snd y \<and> mn ! fst x < mx ! fst y \<and> mx ! fst x > mn ! fst y) then A else g)
       (enumerate 0 uc) B"
    unfolding overlap_scan_def inner
    by (rule arg_cong[where f="\<lambda>f. fold f _ _"]) (auto simp: fun_eq_iff)
  also have "\<dots> = (if \<exists>y\<in>set (enumerate 0 uc). \<exists>x\<in>set (enumerate 0 uc). snd x \<noteq> snd y \<and> mn ! fst x < mx ! fst y \<and> mx ! fst x > mn ! fst y then A else B)"
    by (rule fold_flag)
  also have "\<dots> = (if \<exists>i<length uc. \<exists>j<length uc. uc ! j \<noteq> uc ! i \<and> mn ! j < mx ! i \<and> mx ! j > mn ! i
     then A else B)"
    by (auto simp: in_set_enumerate_eq Bex_def)
  finally show ?thesis .
qed

lemma np_unique_set: "set (np_sort (np_unique xs)) = set xs"
  by (simp add: np_sort_def np_unique_def)

lemma analyze_streamer_headers_eq:
  assumes "dict_get h ''cable'' = Inr cab" "dict_get h ''channel'' = Inr chan"
    "length cab = length chan"
  shows "analyze_streamer_headers h =
    Inr (np_sort (np_unique cab),
         map (chan_lo cab chan) (np_sort (np_unique cab)),
         map (chan_hi cab chan) (np_sort (np_unique cab)),
         if \<exists>ci\<in>set cab. \<exists>cj\<in>set cab. ci \<noteq> cj \<and> ranges_overlap cab chan ci cj then A else B)"
proof -
  let ?uc = "np_sort (np_unique cab)"
  have loop: "chan_range_loop h (enumerate 0 ?uc) (np_empty (length ?uc), np_empty (length ?uc)) =
      Inr (map (chan_lo cab chan) ?uc, map (chan_hi cab chan) ?uc)"
    using chan_range_loop_eq[OF assms(1,2), of ?uc 0 "np_empty (length ?uc)" "np_empty (length ?uc)"]
      assms(3)
    by (simp add: np_unique_set np_empty_def)
  have scan: "(\<exists>i<length ?uc. \<exists>j<length ?uc. ?uc ! j \<noteq> ?uc ! i \<and>
        map (chan_lo cab chan) ?uc ! j < map (chan_hi cab chan) ?uc ! i \<and>
        map (chan_hi cab chan) ?uc ! j > map (chan_lo cab chan) ?uc ! i) =
      (\<exists>ci\<in>set cab. \<exists>cj\<in>set cab. ci \<noteq> cj \<and> ranges_overlap cab chan ci cj)"
    (is "?L = ?R")
  proof
    assume ?L
    then obtain i j where "i < length ?uc" "j < length ?uc" "?uc ! j \<noteq> ?uc ! i"
      "chan_lo cab chan (?uc ! j) < chan_hi cab chan (?uc ! i)"
      "chan_hi cab chan (?uc ! j) > chan_lo cab chan (?uc ! i)"
      by auto
    moreover have "?uc ! i \<in> set cab" "?uc ! j \<in> set cab"
      using calculation(1,2) np_unique_set[of cab] nth_mem by blast+
    ultimately show ?R
      unfolding ranges_overlap_def by metis
  next
    assume ?R
    then obtain ci cj where c: "ci \<in> set cab" "cj \<in> set cab" "ci \<noteq> cj"
      "ranges_overlap cab chan ci cj" by blast
    then obtain i j where "i < length ?uc" "?uc ! i = ci" "j < length ?uc" "?uc ! j = cj"
      using np_unique_set[of cab] by (metis in_set_conv_nth)
    with c show ?L
      unfolding ranges_overlap_def by (intro exI[of _ i] conjI exI[of _ j]) auto
  qed
  show ?thesis
    unfolding analyze_streamer_headers_def
    by (simp add: assms(1) Let_def loop overlap_scan_eq scan del: length_map)
qed




section \<open>Properties of the commands and of the executor\<close>

subsection \<open>Dictionaries\<close>

lemma dict_get_dict_set:
  "dict_get (dict_set d k v) k' = (if k' = k then Inr v else dict_get d k')"
  by (induction d) (auto simp: dict_get_def)

lemma dict_keys_dict_set:
  "dict_keys (dict_set d k v) = (if k \<in> set (dict_keys d) then dict_keys d else dict_keys d @ [k])"
  by (induction d) (force simp: dict_keys_def)+


lemma dict_get_keys: "k \<in> set (dict_keys d) \<Longrightarrow> \<exists>v. dict_get d k = Inr v"
  by (cases "map_of d k") (auto simp: dict_get_def dict_keys_def map_of_eq_None_iff)

lemma dict_get_cases: "dict_get d k = Inl KeyError \<or> (\<exists>v. dict_get d k = Inr v)"
  by (simp add: dict_get_def split: option.splits)

lemma parameters_eq: "parameters = {''ChannelsPerCable'', ''chunksize''}"
  by (auto simp: parameters_def get_allowed_parameters_def commands_def)

lemma dict_get_commands:
  "dict_get commands k =
    (if k = ''AutoChannelWrap'' then Inr AutoChannelWrap
     else if k = ''CalculateCable'' then Inr CalculateCable
     else if k = ''ChannelWrap'' then Inr ChannelWrap
     else if k = ''NonBinned'' then Inr NonBinned
     else if k = ''HasDuplicates'' then Inr DuplicateIndex
     else Inl KeyError)"
  by (simp add: dict_get_def commands_def)















subsection \<open>Incompatible overrides\<close>


lemma transform_validate_fail:
  "validate cmd h req = Inl e \<Longrightarrow> transform cmd h req = (h, Inl e)"
  by (cases cmd)
     (simp_all add: DuplicateIndex_transform_def AutoChannelWrap_transform_def
        ChannelWrap_transform_def CalculateCable_transform_def)






subsection \<open>A failing command in a run of several\<close>

lemma run_loop_append:
  "run_loop (pre @ ks) req h names cs =
     (case run_loop pre req h names cs of
        (h1, Inl e) \<Rightarrow> (h1, Inl e)
      | (h1, Inr (names1, cs1)) \<Rightarrow> run_loop ks req h1 names1 cs1)"
proof (induction pre arbitrary: h names cs)
  case Nil
  show ?case by simp
next
  case (Cons k pre)
  show ?case
    by (simp add: Cons.IH Let_def split: sum.splits prod.splits del: transform.simps)
qed

text \<open>
  Claim C7. When the overrides before \<open>override\<close> have run without an exception and left
  the headers \<open>h1\<close>, and the validation of the command of \<open>override\<close> fails on \<open>h1\<close>, then
  that command's transform raises the validation error without changing \<open>h1\<close>, and the
  whole run ends with that error and with the headers \<open>h1\<close>: what the earlier commands
  did stays, and the rest of the request is not run.
\<close>

theorem failed_validation_keeps_earlier_changes:
  assumes "dict_keys req = pre @ override # post"
    and "run_loop pre req h names cs = (h1, Inr (names1, cs1))"
    and "override \<notin> parameters"
    and "dict_get commands override = Inr cmd"
    and "validate cmd h1 req = Inl e"
  shows "transform cmd h1 req = (h1, Inl e) \<and> run h names req cs = (h1, Inl e)"
  using assms transform_validate_fail[OF assms(5)]
  by (simp add: run_def run_loop_append del: transform.simps validate.simps)


theorem failed_validation_keeps_earlier_changes_witness:
  "dict_keys [(''ChannelWrap'', PBool True), (''ChannelsPerCable'', PInt 2), (''NonBinned'', PBool True)]
     = [''ChannelWrap'', ''ChannelsPerCable''] @ ''NonBinned'' # []
   \<and> run_loop [''ChannelWrap'', ''ChannelsPerCable'']
         [(''ChannelWrap'', PBool True), (''ChannelsPerCable'', PInt 2), (''NonBinned'', PBool True)]
         [(''shot_point'', [1, 1]), (''cable'', [1, 1]), (''channel'', [3, 4])]
         [''shot_point'', ''cable'', ''channel''] None
       = ([(''shot_point'', [1, 1]), (''cable'', [1, 1]), (''channel'', [1, 2])],
          Inr ([''shot_point'', ''cable'', ''channel''], None))
   \<and> ''NonBinned'' \<notin> parameters
   \<and> dict_get commands ''NonBinned'' = Inr NonBinned
   \<and> validate NonBinned [(''shot_point'', [1, 1]), (''cable'', [1, 1]), (''channel'', [1, 2])]
         [(''ChannelWrap'', PBool True), (''ChannelsPerCable'', PInt 2), (''NonBinned'', PBool True)]
       = Inl (GridOverrideIncompatibleError ''NonBinned'' ''ChannelWrap'')
   \<and> run [(''shot_point'', [1, 1]), (''cable'', [1, 1]), (''channel'', [3, 4])]
         [''shot_point'', ''cable'', ''channel'']
         [(''ChannelWrap'', PBool True), (''ChannelsPerCable'', PInt 2), (''NonBinned'', PBool True)]
         None
       = ([(''shot_point'', [1, 1]), (''cable'', [1, 1]), (''channel'', [1, 2])],
          Inl (GridOverrideIncompatibleError ''NonBinned'' ''ChannelWrap''))"
proof -
  let ?req = "[(''ChannelWrap'', PBool True), (''ChannelsPerCable'', PInt 2),
               (''NonBinned'', PBool True)]"
  let ?h = "[(''shot_point'', [1, 1]), (''cable'', [1, 1]), (''channel'', [3, 4])] :: headers"
  let ?h1 = "[(''shot_point'', [1, 1]), (''cable'', [1, 1]), (''channel'', [1, 2])] :: headers"
  let ?names = "[''shot_point'', ''cable'', ''channel'']"
  have a1: "dict_keys ?req = [''ChannelWrap'', ''ChannelsPerCable''] @ ''NonBinned'' # []"
    by (simp add: dict_keys_def)
  have a2: "run_loop [''ChannelWrap'', ''ChannelsPerCable''] ?req ?h ?names None
      = (?h1, Inr (?names, None))"
    by (simp add: parameters_eq commands_def ChannelWrap_transform_def ChannelWrap_validate_def
        check_required_keys_def check_required_params_def dict_has_def dict_keys_def
        dict_get_def np_mod_def)
  have a3: "''NonBinned'' \<notin> parameters" by (simp add: parameters_eq)
  have a4: "dict_get commands ''NonBinned'' = Inr NonBinned" by (simp add: dict_get_commands)
  have a5: "validate NonBinned ?h1 ?req = Inl (GridOverrideIncompatibleError ''NonBinned'' ''ChannelWrap'')"
    by (simp add: DuplicateIndex_validate_def dict_has_def dict_keys_def)
  from failed_validation_keeps_earlier_changes[OF a1 a2 a3 a4 a5] a1 a2 a3 a4 a5
  show ?thesis by blast
qed

subsection \<open>A run without a chunk shape\<close>






section \<open>Automatic channel wrap\<close>

lemma fold_list_update:
  "\<forall>i\<in>set is. i < length arr \<Longrightarrow>
   fold (\<lambda>i a. a[i := f i]) is arr = map (\<lambda>j. if j \<in> set is then f j else arr ! j) [0..<length arr]"
proof (induction "is" arbitrary: arr)
  case Nil
  show ?case by (simp add: map_nth)
next
  case (Cons i "is")
  have "fold (\<lambda>i a. a[i := f i]) is (arr[i := f i])
      = map (\<lambda>j. if j \<in> set is then f j else arr[i := f i] ! j) [0..<length (arr[i := f i])]"
    using Cons.prems by (intro Cons.IH) simp
  then show ?case
    using Cons.prems by (auto simp: nth_list_update intro!: nth_equalityI)
qed

lemma set_np_where: "set (np_where m) = {i. i < length m \<and> m ! i}"
  by (auto simp: np_where_def)

lemma wrap_one_cable:
  assumes "length cab = length chan"
  shows "fold (\<lambda>i arr. arr[i := chan ! i - cc + 1]) (np_where (map (\<lambda>c. c = cable) cab)) chan
       = map (\<lambda>(cb, ch). if cb = cable then ch - cc + 1 else ch) (zip cab chan)"
proof -
  have "\<forall>i\<in>set (np_where (map (\<lambda>c. c = cable) cab)). i < length chan"
    using assms by (simp add: set_np_where)
  from fold_list_update[OF this, of "\<lambda>i. chan ! i - cc + 1"] show ?thesis
    using assms by (auto simp: set_np_where intro!: nth_equalityI)
qed

lemma dict_set_dict_set: "dict_set (dict_set d k v) k w = dict_set d k w"
  by (induction d) auto

lemma dict_set_same: "dict_get d k = Inr v \<Longrightarrow> dict_set d k v = d"
  by (induction d) (auto simp: dict_get_def split: option.splits if_splits)

lemma channel_wrap_loop_eq:
  "dict_get h ''channel'' = Inr cur \<Longrightarrow> length cab = length cur \<Longrightarrow>
     distinct (map snd ps) \<Longrightarrow> \<forall>(i, c)\<in>set ps. i < length mn \<and> mn ! i = f c \<Longrightarrow>
     dict_get h ''cable'' = Inr cab \<Longrightarrow>
     channel_wrap_loop ps mn h =
       (dict_set h ''channel''
          (map (\<lambda>(cb, ch). if cb \<in> snd ` set ps then ch - f cb + 1 else ch) (zip cab cur)),
        Inr ())"
proof (induction ps arbitrary: h cur)
  case Nil
  have "map (\<lambda>(cb, ch). ch) (zip cab cur) = cur"
    using Nil.prems(2) by (auto intro!: nth_equalityI)
  then show ?case using Nil.prems(1) by (simp add: dict_set_same)
next
  case (Cons p ps)
  obtain idx cable where p: "p = (idx, cable)" by (cases p)
  let ?cur1 = "map (\<lambda>(cb, ch). if cb = cable then ch - f cable + 1 else ch) (zip cab cur)"
  let ?h1 = "dict_set h ''channel'' ?cur1"
  have idx: "idx < length mn" "mn ! idx = f cable" using Cons.prems(4) p by auto
  have inr: "\<not> (\<exists>i\<in>set (np_where (map (\<lambda>c. c = cable) cab)). length cur \<le> i)"
    using Cons.prems(2) by (auto simp: set_np_where)
  have step: "channel_wrap_loop (p # ps) mn h = channel_wrap_loop ps mn ?h1"
    using idx inr Cons.prems(1,2) Cons.prems(5)
    by (simp add: p Let_def wrap_one_cable del: fold_simps)
  have g: "dict_get ?h1 ''cable'' = Inr cab" "dict_get ?h1 ''channel'' = Inr ?cur1"
    using Cons.prems(5) by (simp_all add: dict_get_dict_set)
  have "channel_wrap_loop ps mn ?h1 =
     (dict_set ?h1 ''channel''
        (map (\<lambda>(cb, ch). if cb \<in> snd ` set ps then ch - f cb + 1 else ch) (zip cab ?cur1)),
      Inr ())"
    using Cons.prems g by (intro Cons.IH) auto
  moreover have "map (\<lambda>(cb, ch). if cb \<in> snd ` set ps then ch - f cb + 1 else ch) (zip cab ?cur1)
      = map (\<lambda>(cb, ch). if cb \<in> snd ` set (p # ps) then ch - f cb + 1 else ch) (zip cab cur)"
    using Cons.prems(2,3) by (auto simp: p intro!: nth_equalityI)
  ultimately show ?case unfolding step by (simp add: dict_set_dict_set)
qed

lemma cable_channels_shift:
  "length cab = length chan \<Longrightarrow>
   cable_channels cab (map (\<lambda>(cb, ch). ch - f cb + 1) (zip cab chan)) c
     = map (\<lambda>ch. ch - f c + 1) (cable_channels cab chan c)"
  unfolding cable_channels_def
  by (induction cab chan rule: list_induct2) auto

lemma chan_lo_shift:
  assumes "length cab = length chan" and "c \<in> set cab"
  shows "chan_lo cab (map (\<lambda>(cb, ch). ch - chan_lo cab chan cb + 1) (zip cab chan)) c = 1"
proof -
  let ?xs = "cable_channels cab chan c"
  let ?g = "\<lambda>ch. ch - chan_lo cab chan c + 1"
  have ne: "?xs \<noteq> []" using assms by (simp add: cable_channels_nonempty)
  have "mono ?g" by (simp add: mono_def)
  then have "?g (Min (set ?xs)) = Min (?g ` set ?xs)"
    using ne by (intro mono_Min_commute) simp_all
  then have "Min (?g ` set ?xs) = 1"
    by (simp add: chan_lo_def)
  moreover have "chan_lo cab (map (\<lambda>(cb, ch). ch - chan_lo cab chan cb + 1) (zip cab chan)) c
      = Min (set (map ?g ?xs))"
    unfolding chan_lo_def[of cab "map _ _"] cable_channels_shift[OF assms(1)] ..
  ultimately show ?thesis by simp
qed

lemma validate_auto_wrap_Inr:
  assumes "{''shot_point'', ''cable'', ''channel''} \<subseteq> set (dict_keys h)"
    and "\<not> dict_has req ''ChannelWrap''" and "\<not> dict_has req ''CalculateCable''"
  shows "validate AutoChannelWrap h req = Inr ()"
  using assms
  by (simp add: AutoChannelWrap_validate_def check_required_keys_def check_required_params_def)

lemma auto_channel_wrap_eq:
  assumes "{''shot_point'', ''cable'', ''channel''} \<subseteq> set (dict_keys h)"
    and "dict_get h ''cable'' = Inr cab" and "dict_get h ''channel'' = Inr chan"
    and "length cab = length chan"
    and "\<not> dict_has req ''ChannelWrap''" and "\<not> dict_has req ''CalculateCable''"
  shows "\<exists>uc mn mx g chan'.
           analyze_streamer_headers h = Inr (uc, mn, mx, g)
         \<and> (g = A \<or> g = B)
         \<and> chan' = map (\<lambda>(cb, ch). ch - chan_lo cab chan cb + 1) (zip cab chan)
         \<and> (g = B \<longrightarrow>
               transform AutoChannelWrap h req = (dict_set h ''channel'' chan', Inr ())
             \<and> (\<forall>c\<in>set cab. chan_lo cab chan' c = 1))
         \<and> (g = A \<longrightarrow> transform AutoChannelWrap h req = (h, Inr ()))"
proof -
  let ?uc = "np_sort (np_unique cab)"
  let ?mn = "map (chan_lo cab chan) ?uc"
  let ?mx = "map (chan_hi cab chan) ?uc"
  let ?g = "if \<exists>ci\<in>set cab. \<exists>cj\<in>set cab. ci \<noteq> cj \<and> ranges_overlap cab chan ci cj then A else B"
  let ?chan' = "map (\<lambda>(cb, ch). ch - chan_lo cab chan cb + 1) (zip cab chan)"
  have an: "analyze_streamer_headers h = Inr (?uc, ?mn, ?mx, ?g)"
    by (rule analyze_streamer_headers_eq[OF assms(2,3,4)])
  have v: "validate AutoChannelWrap h req = Inr ()"
    by (rule validate_auto_wrap_Inr[OF assms(1,5,6)])
  have d: "distinct ?uc" by (simp add: np_sort_def np_unique_def)
  have loop: "channel_wrap_loop (enumerate 0 ?uc) ?mn h =
       (dict_set h ''channel''
          (map (\<lambda>(cb, ch). if cb \<in> snd ` set (enumerate 0 ?uc)
                  then ch - chan_lo cab chan cb + 1 else ch) (zip cab chan)),
        Inr ())"
    using d by (intro channel_wrap_loop_eq assms) (auto simp: in_set_enumerate_eq)
  have img: "snd ` set (enumerate 0 ?uc) = set cab"
    using np_unique_set[of cab] by (simp flip: set_map)
  have "map (\<lambda>(cb, ch). if cb \<in> snd ` set (enumerate 0 ?uc)
                  then ch - chan_lo cab chan cb + 1 else ch) (zip cab chan) = ?chan'"
    unfolding img by (rule map_cong) (auto dest: set_zip_leftD)
  with loop have loop': "channel_wrap_loop (enumerate 0 ?uc) ?mn h = (dict_set h ''channel'' ?chan', Inr ())"
    by simp
  have tB: "?g = B \<Longrightarrow> transform AutoChannelWrap h req = (dict_set h ''channel'' ?chan', Inr ())"
    by (simp add: AutoChannelWrap_transform_def v an loop' del: validate.simps)
  have tA: "?g = A \<Longrightarrow> transform AutoChannelWrap h req = (h, Inr ())"
    by (simp add: AutoChannelWrap_transform_def v an del: validate.simps)
  have m1: "\<forall>c\<in>set cab. chan_lo cab ?chan' c = 1"
    using chan_lo_shift[OF assms(4)] by blast
  show ?thesis
    using an tA tB m1 by (intro exI[of _ ?uc] exI[of _ ?mn] exI[of _ ?mx] exI[of _ ?g] exI[of _ ?chan']) auto
qed




section \<open>Automatic trace index: the counter and the walk\<close>

lemma map_of_dict_set: "map_of (dict_set d k v) = (map_of d)(k \<mapsto> v)"
  by (induction d) (auto simp: fun_eq_iff)

lemma dict_get_map_of: "dict_get d k = Inr v \<longleftrightarrow> map_of d k = Some v"
  by (simp add: dict_get_def split: option.splits)

lemma counter_get_Leaf: "counter_get (Leaf n) q = (if q = [] then Some n else None)"
  by (cases q) simp_all

lemma incr_path_ok:
  "counter_get c p = Some n \<Longrightarrow> p \<noteq> [] \<Longrightarrow>
     \<exists>c'. incr_path c p = Inr (c', n + 1)
        \<and> (\<forall>q. counter_get c' q = (if q = p then Some (n + 1) else counter_get c q))"
proof (induction c p arbitrary: n rule: incr_path.induct)
  case (1 m idx_values)
  then show ?case by (cases idx_values) simp_all
next
  case (2 d)
  then show ?case by simp
next
  case (3 d v)
  from 3 obtain sub where sub: "map_of d v = Some sub" "counter_get sub [] = Some n"
    by (auto split: option.splits)
  then have leaf: "sub = Leaf n" by (cases sub) simp_all
  have g: "dict_get d v = Inr (Leaf n)" using sub leaf by (simp add: dict_get_map_of)
  have "counter_get (Node (dict_set d v (Leaf (n + 1)))) q
      = (if q = [v] then Some (n + 1) else counter_get (Node d) q)" for q
  proof (cases q)
    case Nil
    then show ?thesis by simp
  next
    case (Cons w ws)
    then show ?thesis using sub leaf
      by (auto simp: map_of_dict_set counter_get_Leaf)
  qed
  then show ?case using g by simp
next
  case (4 d v w vs)
  from 4(2) obtain sub where sub: "map_of d v = Some sub" "counter_get sub (w # vs) = Some n"
    by (auto split: option.splits)
  have g: "dict_get d v = Inr sub" using sub by (simp add: dict_get_map_of)
  from 4(1)[OF g sub(2)] obtain sub' where
    s': "incr_path sub (w # vs) = Inr (sub', n + 1)"
    "\<And>q. counter_get sub' q = (if q = w # vs then Some (n + 1) else counter_get sub q)"
    by auto
  have "counter_get (Node (dict_set d v sub')) q
      = (if q = v # w # vs then Some (n + 1) else counter_get (Node d) q)" for q
  proof (cases q)
    case Nil
    then show ?thesis by simp
  next
    case (Cons u us)
    then show ?thesis using sub s'(2)
      by (auto simp: map_of_dict_set)
  qed
  then show ?case using g s'(1) by simp
qed

lemma map_of_fold_dict_set:
  "map_of (fold (\<lambda>x c. dict_set c x s) vals d) v = (if v \<in> set vals then Some s else map_of d v)"
  by (induction vals arbitrary: d) (auto simp: map_of_dict_set)

lemma create_counter_zero:
  assumes "td = length hn" and "\<forall>j<td. dict_get uh (hn ! j) = Inr (V j)"
  shows "n = td - depth \<Longrightarrow> depth \<le> td \<Longrightarrow>
     \<exists>c. create_counter depth td uh hn = Inr c
       \<and> (\<forall>p. length p = td - depth \<longrightarrow> (\<forall>j<td - depth. p ! j \<in> set (V (depth + j)))
             \<longrightarrow> counter_get c p = Some 0)"
proof (induction n arbitrary: depth)
  case 0
  then have "depth = td" by simp
  then show ?case by (subst create_counter.simps) simp
next
  case (Suc n)
  then have lt: "depth < td" and n: "n = td - (depth + 1)" and le: "depth + 1 \<le> td" by simp_all
  have g: "dict_get uh (hn ! depth) = Inr (V depth)" using assms(2) lt by simp
  show ?case
  proof (cases "V depth = []")
    case True
    have "create_counter depth td uh hn = Inr (Node [])"
      using lt assms(1) g True by (subst create_counter.simps) simp
    moreover have "\<not> (\<forall>j<td - depth. p ! j \<in> set (V (depth + j)))" for p
      using True lt by (auto intro!: exI[of _ 0])
    ultimately show ?thesis by blast
  next
    case False
    from Suc.IH[OF n le] obtain sub where
      sub: "create_counter (depth + 1) td uh hn = Inr sub"
      "\<And>p. length p = td - (depth + 1) \<Longrightarrow> (\<forall>j<td - (depth + 1). p ! j \<in> set (V (depth + 1 + j)))
            \<Longrightarrow> counter_get sub p = Some 0"
      by blast
    let ?c = "Node (fold (\<lambda>header c. dict_set c header sub) (V depth) [])"
    have cc: "create_counter depth td uh hn = Inr ?c"
      using lt assms(1) g False sub(1) by (subst create_counter.simps) simp
    have "counter_get ?c p = Some 0"
      if len: "length p = td - depth" and mem: "\<forall>j<td - depth. p ! j \<in> set (V (depth + j))" for p
    proof -
      from len lt obtain v vs where p: "p = v # vs" by (cases p) auto
      have v: "v \<in> set (V depth)" using mem lt p by (auto dest: spec[of _ 0])
      have "length vs = td - (depth + 1)" using len p by simp
      moreover have "\<forall>j<td - (depth + 1). vs ! j \<in> set (V (depth + 1 + j))"
      proof (intro allI impI)
        fix j assume "j < td - (depth + 1)"
        then have "Suc j < td - depth" by simp
        with mem have "p ! Suc j \<in> set (V (depth + Suc j))" by blast
        then show "vs ! j \<in> set (V (depth + 1 + j))" by (simp add: p)
      qed
      ultimately have "counter_get sub vs = Some 0" by (rule sub(2))
      then show ?thesis using v by (simp add: p map_of_fold_dict_set)
    qed
    with cc show ?thesis by blast
  qed
qed


lemma set_item_trace:
  "dict_get h ''trace'' = Inr tr \<Longrightarrow> idx < length tr \<Longrightarrow>
   set_item h ''trace'' idx v = Inr (dict_set h ''trace'' (tr[idx := v]))"
  by (simp add: set_item_def)

lemma trace_index_loop_ok:
  "dict_get hc ''trace'' = Inr tr \<Longrightarrow> idx + length rs \<le> length tr \<Longrightarrow>
   \<forall>r\<in>set rs. r \<noteq> [] \<and> counter_get c r = Some (g r) \<Longrightarrow>
   \<exists>tr'. trace_index_loop dt rs idx c hc = (dict_set hc ''trace'' tr', Inr ())
     \<and> length tr' = length tr
     \<and> (\<forall>k<length rs. tr' ! (idx + k)
            = np_cast dt (g (rs ! k) + int (count_list (take (Suc k) rs) (rs ! k))))
     \<and> (\<forall>j<idx. tr' ! j = tr ! j)"
proof (induction rs arbitrary: idx c hc tr g)
  case Nil
  then show ?case by (auto simp: dict_set_same intro!: exI[of _ tr])
next
  case (Cons r rs)
  have r: "r \<noteq> []" "counter_get c r = Some (g r)" using Cons.prems(3) by simp_all
  from incr_path_ok[OF r(2) r(1)] obtain c' where
    c': "incr_path c r = Inr (c', g r + 1)"
    "\<And>q. counter_get c' q = (if q = r then Some (g r + 1) else counter_get c q)"
    by blast
  let ?g' = "g(r := g r + 1)"
  let ?tr1 = "tr[idx := np_cast dt (g r + 1)]"
  let ?h1 = "dict_set hc ''trace'' ?tr1"
  have idx: "idx < length tr" using Cons.prems(2) by simp
  have si: "set_item hc ''trace'' idx (np_cast dt (g r + 1)) = Inr ?h1"
    by (rule set_item_trace[OF Cons.prems(1) idx])
  have step: "trace_index_loop dt (r # rs) idx c hc = trace_index_loop dt rs (Suc idx) c' ?h1"
    by (simp add: c'(1) si)
  have g1: "dict_get ?h1 ''trace'' = Inr ?tr1" by (simp add: dict_get_dict_set)
  have len: "Suc idx + length rs \<le> length ?tr1" using Cons.prems(2) by simp
  have inv: "\<forall>q\<in>set rs. q \<noteq> [] \<and> counter_get c' q = Some (?g' q)"
    using Cons.prems(3) by (simp add: c'(2))
  from Cons.IH[OF g1 len inv] obtain tr' where
    t: "trace_index_loop dt rs (Suc idx) c' ?h1 = (dict_set ?h1 ''trace'' tr', Inr ())"
    "length tr' = length ?tr1"
    "\<And>k. k < length rs \<Longrightarrow> tr' ! (Suc idx + k)
        = np_cast dt (?g' (rs ! k) + int (count_list (take (Suc k) rs) (rs ! k)))"
    "\<And>j. j < Suc idx \<Longrightarrow> tr' ! j = ?tr1 ! j"
    by blast
  have a: "trace_index_loop dt (r # rs) idx c hc = (dict_set hc ''trace'' tr', Inr ())"
    unfolding step t(1) by (simp add: dict_set_dict_set)
  have b: "length tr' = length tr" using t(2) by simp
  have c: "tr' ! (idx + k)
      = np_cast dt (g ((r # rs) ! k) + int (count_list (take (Suc k) (r # rs)) ((r # rs) ! k)))"
    if "k < length (r # rs)" for k
  proof (cases k)
    case 0
    have "tr' ! idx = ?tr1 ! idx" by (rule t(4)) simp
    then show ?thesis using idx 0 by simp
  next
    case (Suc k')
    then have "k' < length rs" using that by simp
    from t(3)[OF this] show ?thesis by (auto simp: Suc add.assoc)
  qed
  have d: "tr' ! j = tr ! j" if "j < idx" for j
    using t(4)[of j] that by simp
  from a b c d show ?case by blast
qed

lemma arr_of_Inr: "dict_get h k = Inr arr \<Longrightarrow> arr_of h k = arr"
  by (simp add: arr_of_def)

lemma grouping_headers_eq:
  "\<forall>k\<in>set ks. \<exists>arr. dict_get h k = Inr arr \<Longrightarrow>
   grouping_headers h ks (uh, td, hn) =
     Inr (fold (\<lambda>k u. dict_set u k (np_sort (np_unique (arr_of h k))))
            (filter (\<lambda>k. k \<noteq> ''trace'') ks) uh,
          td + length (filter (\<lambda>k. k \<noteq> ''trace'') ks),
          hn @ filter (\<lambda>k. k \<noteq> ''trace'') ks)"
proof (induction ks arbitrary: uh td hn)
  case Nil
  show ?case by simp
next
  case (Cons k ks)
  from Cons.prems obtain arr where arr: "dict_get h k = Inr arr" by auto
  have rest: "\<forall>k\<in>set ks. \<exists>arr. dict_get h k = Inr arr" using Cons.prems by simp
  show ?case
    by (simp add: arr arr_of_Inr[OF arr] Cons.IH[OF rest])
qed

lemma dict_get_fold_dict_set:
  "dict_get (fold (\<lambda>k u. dict_set u k (F k)) ks uh) k'
     = (if k' \<in> set ks then Inr (F k') else dict_get uh k')"
  by (induction ks arbitrary: uh) (auto simp: dict_get_dict_set)

lemma columns_eq:
  "\<forall>i\<in>set is. i < length hn \<and> (\<exists>arr. dict_get h (hn ! i) = Inr arr) \<Longrightarrow>
   columns h hn is = Inr (map (\<lambda>i. arr_of h (hn ! i)) is)"
proof (induction "is")
  case Nil
  show ?case by simp
next
  case (Cons i "is")
  from Cons.prems obtain arr where arr: "dict_get h (hn ! i) = Inr arr" and i: "i < length hn"
    by auto
  have rest: "\<forall>i\<in>set is. i < length hn \<and> (\<exists>arr. dict_get h (hn ! i) = Inr arr)"
    using Cons.prems by simp
  show ?case using i by (simp add: arr arr_of_Inr[OF arr] Cons.IH[OF rest])
qed

lemma zip_star_eq:
  assumes "cols \<noteq> []" and "\<forall>col\<in>set cols. length col = N"
  shows "zip_star cols = map (group_key cols) [0..<N]"
proof -
  have "set (map length cols) = {N}" using assms by (cases cols) auto
  then have "Min (set (map length cols)) = N" by simp
  then show ?thesis using assms(1) by (simp add: zip_star_def group_key_def)
qed

lemma count_list_map: "count_list (map f xs) y = length (filter (\<lambda>x. f x = y) xs)"
  by (induction xs) auto

lemma dict_get_mem: "dict_get h k = Inr arr \<Longrightarrow> (k, arr) \<in> set h"
  by (auto simp: dict_get_map_of dest: map_of_SomeD)


lemma grouping_names_keys:
  "k \<in> set (grouping_names h) \<Longrightarrow> k \<noteq> ''trace'' \<and> (\<exists>arr. dict_get h k = Inr arr)"
  by (auto simp: grouping_names_def dest: dict_get_keys)

lemma analyze_non_indexed_headers_no_group:
  assumes "grouping_names h = []"
  shows "analyze_non_indexed_headers h dt = (h, Inl IndexError)"
proof -
  have ks: "\<forall>k\<in>set (dict_keys h). \<exists>arr. dict_get h k = Inr arr"
    by (simp add: dict_get_keys)
  have gh: "grouping_headers h (dict_keys h) ([], 0, []) = Inr ([], 0, [])"
    using grouping_headers_eq[OF ks, of "[]" 0 "[]"] assms by (simp add: grouping_names_def)
  have cc: "create_counter 0 0 [] [] = Inr (Leaf 0)"
    by (subst create_counter.simps) simp
  show ?thesis
    by (simp add: analyze_non_indexed_headers_def gh cc create_trace_index_def
        del: create_counter.simps)
qed

lemma analyze_non_indexed_headers_eq:
  assumes "\<forall>(k, arr)\<in>set h. length arr = N" and "grouping_names h \<noteq> []"
  shows "\<exists>tr. analyze_non_indexed_headers h dt = (dict_set h ''trace'' tr, Inr ())
           \<and> length tr = N
           \<and> (\<forall>i<N. tr ! i = np_cast dt (int (ordinal (grouping_columns h) i)))"
proof -
  let ?hn = "grouping_names h"
  let ?td = "length ?hn"
  let ?F = "\<lambda>k. np_sort (np_unique (arr_of h k))"
  let ?uh = "fold (\<lambda>k u. dict_set u k (?F k)) ?hn []"
  let ?cols = "grouping_columns h"
  have ks: "\<forall>k\<in>set (dict_keys h). \<exists>arr. dict_get h k = Inr arr"
    by (simp add: dict_get_keys)
  have gh: "grouping_headers h (dict_keys h) ([], 0, []) = Inr (?uh, ?td, ?hn)"
    using grouping_headers_eq[OF ks, of "[]" 0 "[]"] by (simp add: grouping_names_def)
  have uh: "\<forall>j<?td. dict_get ?uh (?hn ! j) = Inr (?F (?hn ! j))"
    by (simp add: dict_get_fold_dict_set)
  from create_counter_zero[OF refl uh, of ?td 0] obtain c where
    cc: "create_counter 0 ?td ?uh ?hn = Inr c"
    and zero: "\<And>p. length p = ?td \<Longrightarrow> (\<forall>j<?td. p ! j \<in> set (?F (?hn ! j)))
                 \<Longrightarrow> counter_get c p = Some 0"
    by auto
  have collen: "length (arr_of h k) = N" if "k \<in> set ?hn" for k
  proof -
    from grouping_names_keys[OF that] obtain arr where arr: "dict_get h k = Inr arr" by blast
    then have "(k, arr) \<in> set h" by (rule dict_get_mem)
    with assms(1) have "length arr = N" by auto
    then show ?thesis by (simp add: arr_of_Inr[OF arr])
  qed
  have hn0: "?hn ! 0 \<in> set ?hn" using assms(2) by simp
  from grouping_names_keys[OF hn0] obtain first where
    first: "dict_get h (?hn ! 0) = Inr first" by blast
  have flen: "length first = N" using collen[OF hn0] by (simp add: arr_of_Inr[OF first])
  let ?h1 = "dict_set h ''trace'' (np_empty N)"
  have get1: "dict_get ?h1 k = dict_get h k" if "k \<in> set ?hn" for k
    using grouping_names_keys[OF that] by (simp add: dict_get_dict_set)
  have arr1: "arr_of ?h1 k = arr_of h k" if "k \<in> set ?hn" for k
    using get1[OF that] by (simp add: arr_of_def)
  have "columns ?h1 ?hn [0..<?td] = Inr (map (\<lambda>i. arr_of ?h1 (?hn ! i)) [0..<?td])"
  proof (rule columns_eq, intro ballI conjI)
    fix i assume "i \<in> set [0..<?td]"
    then show i: "i < ?td" by simp
    then have "?hn ! i \<in> set ?hn" by simp
    then show "\<exists>arr. dict_get ?h1 (?hn ! i) = Inr arr"
      using get1 grouping_names_keys by metis
  qed
  moreover have "map (\<lambda>i. arr_of ?h1 (?hn ! i)) [0..<?td] = ?cols"
    unfolding grouping_columns_def by (rule nth_equalityI) (simp_all add: arr1)
  ultimately have cols: "columns ?h1 ?hn [0..<?td] = Inr ?cols" by simp
  have colsne: "?cols \<noteq> []" using assms(2) by (simp add: grouping_columns_def)
  have colsN: "\<forall>col\<in>set ?cols. length col = N"
    using collen by (auto simp: grouping_columns_def)
  let ?rs = "map (group_key ?cols) [0..<N]"
  have zs: "zip_star ?cols = ?rs" by (rule zip_star_eq[OF colsne colsN])
  have cti: "create_trace_index ?td c h ?hn dt = trace_index_loop dt ?rs 0 c ?h1"
    using assms(2) by (simp add: create_trace_index_def first flen Let_def cols zs)
  have tr0: "dict_get ?h1 ''trace'' = Inr (np_empty N)" by (simp add: dict_get_dict_set)
  have len0: "0 + length ?rs \<le> length (np_empty N)" by (simp add: np_empty_def)
  have valid: "\<forall>r\<in>set ?rs. r \<noteq> [] \<and> counter_get c r = Some ((\<lambda>_. 0) r)"
  proof
    fix r assume "r \<in> set ?rs"
    then obtain i where i: "i < N" "r = group_key ?cols i" by auto
    have ne: "r \<noteq> []" using colsne i(2) by (simp add: group_key_def)
    have "counter_get c r = Some 0"
    proof (rule zero)
      show "length r = ?td" by (simp add: i(2) group_key_def grouping_columns_def)
      show "\<forall>j<?td. r ! j \<in> set (?F (?hn ! j))"
      proof (intro allI impI)
        fix j assume j: "j < ?td"
        then have "?hn ! j \<in> set ?hn" by simp
        from collen[OF this] have "i < length (arr_of h (?hn ! j))" using i(1) by simp
        then have "arr_of h (?hn ! j) ! i \<in> set (arr_of h (?hn ! j))" by simp
        then show "r ! j \<in> set (?F (?hn ! j))"
          using j by (simp add: i(2) group_key_def grouping_columns_def np_unique_set)
      qed
    qed
    with ne show "r \<noteq> [] \<and> counter_get c r = Some ((\<lambda>_. 0) r)" by simp
  qed
  from trace_index_loop_ok[OF tr0 len0 valid, of dt] obtain tr where
    t: "trace_index_loop dt ?rs 0 c ?h1 = (dict_set ?h1 ''trace'' tr, Inr ())"
    "length tr = length (np_empty N)"
    "\<And>k. k < length ?rs \<Longrightarrow> tr ! (0 + k)
        = np_cast dt (0 + int (count_list (take (Suc k) ?rs) (?rs ! k)))"
    by blast
  have res: "analyze_non_indexed_headers h dt = (dict_set h ''trace'' tr, Inr ())"
    by (simp add: analyze_non_indexed_headers_def gh cc cti t(1) dict_set_dict_set
        del: create_counter.simps)
  have len: "length tr = N" using t(2) by (simp add: np_empty_def)
  have val: "tr ! i = np_cast dt (int (ordinal ?cols i))" if "i < N" for i
  proof -
    have "take (Suc i) ?rs = map (group_key ?cols) [0..<Suc i]"
      using that by (simp add: take_map del: upt_Suc)
    then have "count_list (take (Suc i) ?rs) (?rs ! i) = ordinal ?cols i"
      using that by (simp add: count_list_map ordinal_def del: upt_Suc)
    with t(3)[of i] that show ?thesis by simp
  qed
  from res len val show ?thesis by blast
qed

section \<open>Automatic trace index: the ordinals\<close>

lemma np_cast_int16_small: "0 \<le> v \<Longrightarrow> v \<le> 32767 \<Longrightarrow> np_cast int16 v = v"
  by (simp add: signed_of_int signed_take_bit_int_eq_self)

lemma np_cast_int16_mod: "np_cast int16 v = (v + 32768) mod 65536 - 32768"
  by (simp add: signed_of_int signed_take_bit_eq_take_bit_shift take_bit_eq_mod)

lemma filter_upt_nth:
  "m < length (filter P [0..<N]) \<Longrightarrow>
   filter P [0..<N] ! m < N \<and> P (filter P [0..<N] ! m)
   \<and> length (filter P [0..<Suc (filter P [0..<N] ! m)]) = Suc m"
proof (induction N)
  case 0
  then show ?case by simp
next
  case (Suc N)
  show ?case
  proof (cases "m < length (filter P [0..<N])")
    case True
    then have eq: "filter P [0..<Suc N] ! m = filter P [0..<N] ! m"
      by (simp add: nth_append)
    show ?thesis unfolding eq using Suc.IH[OF True] by (auto simp del: upt_Suc)
  next
    case False
    with Suc.prems have m: "m = length (filter P [0..<N])" and p: "P N"
      by (auto split: if_splits)
    then have eq: "filter P [0..<Suc N] ! m = N" by (simp add: nth_append)
    show ?thesis unfolding eq using m p by simp
  qed
qed

lemma ordinal_group_position:
  assumes "m < length (group_positions cols N g)"
  shows "group_positions cols N g ! m < N"
    and "ordinal cols (group_positions cols N g ! m) = Suc m"
proof -
  let ?P = "\<lambda>i. group_key cols i = g"
  let ?i = "filter ?P [0..<N] ! m"
  from filter_upt_nth[of m ?P N] assms
  have f: "?i < N" "group_key cols ?i = g" "length (filter ?P [0..<Suc ?i]) = Suc m"
    by (simp_all add: group_positions_def del: upt_Suc)
  show "group_positions cols N g ! m < N" using f(1) by (simp add: group_positions_def)
  show "ordinal cols (group_positions cols N g ! m) = Suc m"
    using f(2,3) by (simp add: ordinal_def group_positions_def del: upt_Suc)
qed

lemma ordinal_le_group:
  assumes "i < N"
  shows "ordinal cols i \<le> length (group_positions cols N (group_key cols i))"
proof -
  have "[0..<N] = [0..<Suc i] @ [Suc i..<N]"
    using assms by (metis Suc_leI le0 upt_add_eq_append le_add_diff_inverse)
  then have "filter (\<lambda>j. group_key cols j = group_key cols i) [0..<N]
      = filter (\<lambda>j. group_key cols j = group_key cols i) [0..<Suc i]
        @ filter (\<lambda>j. group_key cols j = group_key cols i) [Suc i..<N]"
    by (metis filter_append)
  then show ?thesis by (simp add: ordinal_def group_positions_def del: upt_Suc)
qed

lemma validate_duplicate_transform:
  assumes "cmd = DuplicateIndex \<or> cmd = NonBinned" and "validate cmd h req = Inr ()"
  shows "transform cmd h req = analyze_non_indexed_headers h int16"
  using assms by (auto simp: DuplicateIndex_transform_def)

text \<open>
  Claim C3, as amended. Let every array of the header set have \<open>N\<close> entries, let there be
  at least one header other than \<^verbatim>\<open>trace\<close>, and let no group of traces with the same tuple
  of grouping header values have more than 32767 members. Then
  \<^verbatim>\<open>analyze_non_indexed_headers\<close>, with the 16-bit \<^verbatim>\<open>dtype\<close> that \<^verbatim>\<open>DuplicateIndex\<close> and
  \<^verbatim>\<open>NonBinned\<close> run it with, returns and stores a \<^verbatim>\<open>trace\<close> array of \<open>N\<close> entries in which
  every trace has its ordinal, and the traces of every group, read in file order, have
  exactly the ordinals 1 to \<open>k\<close>, where \<open>k\<close> is the size of the group.
\<close>

theorem trace_ordinals_in_file_order:
  assumes "\<forall>(k, arr)\<in>set h. length arr = N"
    and "grouping_names h \<noteq> []"
    and "\<forall>g. length (group_positions (grouping_columns h) N g) \<le> 32767"
  shows "\<exists>tr. analyze_non_indexed_headers h int16 = (dict_set h ''trace'' tr, Inr ())
         \<and> length tr = N
         \<and> (\<forall>i<N. tr ! i = int (ordinal (grouping_columns h) i))
         \<and> (\<forall>g. map (\<lambda>i. tr ! i) (group_positions (grouping_columns h) N g)
                = map int [1..<Suc (length (group_positions (grouping_columns h) N g))])
         \<and> (\<forall>cmd req. (cmd = DuplicateIndex \<or> cmd = NonBinned) \<and> validate cmd h req = Inr ()
                \<longrightarrow> transform cmd h req = (dict_set h ''trace'' tr, Inr ()))"
proof -
  let ?cols = "grouping_columns h"
  from analyze_non_indexed_headers_eq[OF assms(1,2), of int16] obtain tr where
    tr: "analyze_non_indexed_headers h int16 = (dict_set h ''trace'' tr, Inr ())"
    "length tr = N"
    "\<And>i. i < N \<Longrightarrow> tr ! i = np_cast int16 (int (ordinal ?cols i))"
    by blast
  have val: "tr ! i = int (ordinal ?cols i)" if "i < N" for i
  proof -
    have "ordinal ?cols i \<le> 32767"
      using ordinal_le_group[OF that, of ?cols] assms(3) by (meson le_trans)
    then have "np_cast int16 (int (ordinal ?cols i)) = int (ordinal ?cols i)"
      by (intro np_cast_int16_small) simp_all
    then show ?thesis using tr(3)[OF that] by (simp only:)
  qed
  have grp: "map (\<lambda>i. tr ! i) (group_positions ?cols N g)
      = map int [1..<Suc (length (group_positions ?cols N g))]" for g
  proof (rule nth_equalityI)
    show "length (map (\<lambda>i. tr ! i) (group_positions ?cols N g))
        = length (map int [1..<Suc (length (group_positions ?cols N g))])"
      by (simp del: upt_Suc)
  next
    fix m assume "m < length (map (\<lambda>i. tr ! i) (group_positions ?cols N g))"
    then have m: "m < length (group_positions ?cols N g)" by simp
    from ordinal_group_position[OF m] val
    have "tr ! (group_positions ?cols N g ! m) = int (Suc m)" by simp
    then show "map (\<lambda>i. tr ! i) (group_positions ?cols N g) ! m
        = map int [1..<Suc (length (group_positions ?cols N g))] ! m"
      using m by (simp del: upt_Suc)
  qed
  have run: "transform cmd h req = (dict_set h ''trace'' tr, Inr ())"
    if "(cmd = DuplicateIndex \<or> cmd = NonBinned) \<and> validate cmd h req = Inr ()" for cmd req
    using validate_duplicate_transform[of cmd h req] that tr(1) by simp
  from tr(1,2) val grp run show ?thesis by blast
qed


theorem trace_ordinals_in_file_order_witness:
  "grouping_names [(''shot_point'', [1, 1, 2, 1]), (''cable'', [1, 1, 2, 1])] \<noteq> []
   \<and> analyze_non_indexed_headers [(''shot_point'', [1, 1, 2, 1]), (''cable'', [1, 1, 2, 1])] int16
       = ([(''shot_point'', [1, 1, 2, 1]), (''cable'', [1, 1, 2, 1]), (''trace'', [1, 2, 1, 3])],
          Inr ())"
proof -
  let ?h = "[(''shot_point'', [1, 1, 2, 1]), (''cable'', [1, 1, 2, 1])] :: headers"
  have a1: "\<forall>(k, arr)\<in>set ?h. length arr = 4" by simp
  have gn: "grouping_names ?h = [''shot_point'', ''cable'']"
    by (simp add: grouping_names_def dict_keys_def)
  then have a2: "grouping_names ?h \<noteq> []" by simp
  have gc: "grouping_columns ?h = [[1, 1, 2, 1], [1, 1, 2, 1]]"
    by (simp add: grouping_columns_def gn arr_of_def dict_get_def)
  have a3: "\<forall>g. length (group_positions (grouping_columns ?h) 4 g) \<le> 32767"
  proof
    fix g
    have "length (group_positions (grouping_columns ?h) 4 g) \<le> length [0..<4]"
      unfolding group_positions_def by (rule length_filter_le)
    then show "length (group_positions (grouping_columns ?h) 4 g) \<le> 32767" by simp
  qed
  have ord: "ordinal [[1, 1, 2, 1], [1, 1, 2, 1]] 0 = 1" "ordinal [[1, 1, 2, 1], [1, 1, 2, 1]] (Suc 0) = 2"
    "ordinal [[1, 1, 2, 1], [1, 1, 2, 1]] 2 = 1" "ordinal [[1, 1, 2, 1], [1, 1, 2, 1]] 3 = 3"
    by code_simp+
  from trace_ordinals_in_file_order[OF a1 a2 a3] obtain tr where
    tr: "analyze_non_indexed_headers ?h int16 = (dict_set ?h ''trace'' tr, Inr ())"
    "length tr = 4" "\<forall>i<4. tr ! i = int (ordinal (grouping_columns ?h) i)"
    by blast
  have "tr = map (\<lambda>i. tr ! i) [0..<length tr]" by (simp add: map_nth)
  also have "\<dots> = [tr ! 0, tr ! 1, tr ! 2, tr ! 3]"
    by (simp add: tr(2) upt_rec numeral_2_eq_2 numeral_3_eq_3)
  also have "\<dots> = [1, 2, 1, 3]"
    using tr(3) by (simp add: gc ord)
  finally have "tr = [1, 2, 1, 3]" .
  with tr(1) a2 show ?thesis by simp
qed

lemma ordinal_single_column: "i < n \<Longrightarrow> ordinal [replicate n x] i = Suc i"
proof -
  assume i: "i < n"
  have "filter (\<lambda>j. group_key [replicate n x] j = group_key [replicate n x] i) [0..<Suc i]
      = [0..<Suc i]"
    using i by (intro filter_True) (auto simp: group_key_def simp del: upt_Suc)
  then show ?thesis by (simp add: ordinal_def del: upt_Suc)
qed

lemma group_positions_single_column: "length (group_positions [replicate n x] n [x]) = n"
proof -
  have "filter (\<lambda>i. group_key [replicate n x] i = [x]) [0..<n] = [0..<n]"
    by (intro filter_True) (auto simp: group_key_def)
  then show ?thesis by (simp add: group_positions_def)
qed

lemma grouping_single:
  assumes "key \<noteq> ''trace''"
  shows "grouping_names [(key, arr)] = [key]" and "grouping_columns [(key, arr)] = [arr]"
  using assms by (simp_all add: grouping_names_def grouping_columns_def dict_keys_def arr_of_def
      dict_get_def)

lemma get_item_dict_set:
  "i < length arr \<Longrightarrow> get_item (dict_set h key arr) key i = Inr (arr ! i)"
  by (simp add: get_item_def dict_get_dict_set)

lemma single_group_last:
  assumes "key \<noteq> ''trace''" and "0 < n"
  shows "get_item (fst (analyze_non_indexed_headers [(key, replicate n x)] dt)) ''trace'' (n - 1)
       = Inr (np_cast dt (int n))"
proof -
  let ?h = "[(key, replicate n x)] :: headers"
  have a1: "\<forall>(k, arr)\<in>set ?h. length arr = n" by simp
  have a2: "grouping_names ?h \<noteq> []" by (simp add: grouping_single(1)[OF assms(1)])
  from analyze_non_indexed_headers_eq[OF a1 a2, of dt] obtain tr where
    tr: "analyze_non_indexed_headers ?h dt = (dict_set ?h ''trace'' tr, Inr ())"
    "length tr = n" "\<And>i. i < n \<Longrightarrow> tr ! i = np_cast dt (int (ordinal (grouping_columns ?h) i))"
    by blast
  have "tr ! (n - 1) = np_cast dt (int n)"
    using tr(3)[of "n - 1"] assms(2)
    by (simp add: grouping_single(2)[OF assms(1)] ordinal_single_column)
  then show ?thesis
    using assms(2) by (simp add: tr(1) get_item_dict_set tr(2) del: dict_set.simps)
qed

lemma validate_DuplicateIndex_Inr:
  "\<not> dict_has req ''ChannelWrap'' \<Longrightarrow> \<not> dict_has req ''CalculateCable'' \<Longrightarrow>
   validate DuplicateIndex h req = Inr ()"
  by (simp add: DuplicateIndex_validate_def check_required_params_def)

text \<open>
  The claim as stated, for every header set, fails for one group of 32768 traces: the
  ordinal of the last trace is 32768, and the 16-bit array holds -32768.
\<close>

theorem large_group_counterexample:
  "length (group_positions (grouping_columns [(''cable'', replicate 32768 1)]) 32768 [1]) = 32768
   \<and> get_item (fst (transform DuplicateIndex [(''cable'', replicate 32768 1)]
                      [(''HasDuplicates'', PBool True)])) ''trace'' 32767 = Inr (- 32768)"
proof -
  let ?h = "[(''cable'', replicate 32768 1)] :: headers"
  let ?req = "[(''HasDuplicates'', PBool True)]"
  have k: "''cable'' \<noteq> ''trace''" by simp
  have v: "validate DuplicateIndex ?h ?req = Inr ()"
    by (rule validate_DuplicateIndex_Inr) (simp_all add: dict_has_def dict_keys_def)
  have t: "transform DuplicateIndex ?h ?req = analyze_non_indexed_headers ?h int16"
    by (rule validate_duplicate_transform[OF _ v]) simp
  have g: "length (group_positions (grouping_columns ?h) 32768 [1]) = 32768"
    unfolding grouping_single(2)[OF k] by (rule group_positions_single_column)
  have c: "np_cast int16 (int 32768) = - 32768"
    unfolding np_cast_int16_mod by simp
  have "get_item (fst (analyze_non_indexed_headers ?h int16)) ''trace'' (32768 - 1)
      = Inr (np_cast int16 (int 32768))"
    by (rule single_group_last[OF k]) simp
  then have "get_item (fst (transform DuplicateIndex ?h ?req)) ''trace'' 32767 = Inr (- 32768)"
    unfolding t c by simp
  with g show ?thesis by blast
qed

text \<open>
  Claim C9. \<^verbatim>\<open>DuplicateIndex.transform\<close>, which \<^verbatim>\<open>NonBinned\<close> inherits, calls
  \<^verbatim>\<open>analyze_non_indexed_headers\<close> with the default \<^verbatim>\<open>dtype\<close>, 16-bit signed. The array it
  stores holds, for trace \<open>i\<close>, the ordinal of the trace reduced modulo \<open>2^16\<close> into the range
  from \<open>-32768\<close> to \<open>32767\<close>. So a group of more than 32767 traces does not get the
  ordinals 1 to \<open>k\<close>: in a single group of 32768 traces the last trace gets \<open>-32768\<close>.
\<close>

theorem trace_ordinals_wrap_int16:
  assumes "\<forall>(k, arr)\<in>set h. length arr = N"
    and "grouping_names h \<noteq> []"
    and "cmd = DuplicateIndex \<or> cmd = NonBinned"
    and "validate cmd h req = Inr ()"
  shows "\<exists>tr. transform cmd h req = (dict_set h ''trace'' tr, Inr ())
          \<and> length tr = N
          \<and> (\<forall>i<N. tr ! i = (int (ordinal (grouping_columns h) i) + 32768) mod 65536 - 32768)"
  using analyze_non_indexed_headers_eq[OF assms(1,2), of int16]
    validate_duplicate_transform[OF assms(3,4)]
  by (simp only: np_cast_int16_mod)

theorem trace_ordinals_wrap_int16_witness:
  "grouping_names [(''shot_point'', replicate 32768 7)] \<noteq> []
   \<and> validate DuplicateIndex [(''shot_point'', replicate 32768 7)] [(''HasDuplicates'', PBool True)]
       = Inr ()
   \<and> ordinal (grouping_columns [(''shot_point'', replicate 32768 7)]) 32767 = 32768
   \<and> get_item (fst (transform DuplicateIndex [(''shot_point'', replicate 32768 7)]
                      [(''HasDuplicates'', PBool True)])) ''trace'' 32767 = Inr (- 32768)"
proof -
  let ?h = "[(''shot_point'', replicate 32768 7)] :: headers"
  let ?req = "[(''HasDuplicates'', PBool True)]"
  have k: "''shot_point'' \<noteq> ''trace''" by simp
  have a1: "\<forall>(k, arr)\<in>set ?h. length arr = 32768" by simp
  have a2: "grouping_names ?h \<noteq> []" by (simp add: grouping_single(1)[OF k])
  have a3: "DuplicateIndex = DuplicateIndex \<or> DuplicateIndex = NonBinned" by simp
  have a4: "validate DuplicateIndex ?h ?req = Inr ()"
    by (rule validate_DuplicateIndex_Inr) (simp_all add: dict_has_def dict_keys_def)
  have o: "ordinal (grouping_columns ?h) 32767 = 32768"
    unfolding grouping_single(2)[OF k] by (simp add: ordinal_single_column)
  from trace_ordinals_wrap_int16[OF a1 a2 a3 a4] obtain tr where
    tr: "transform DuplicateIndex ?h ?req = (dict_set ?h ''trace'' tr, Inr ())"
    "length tr = 32768"
    "\<forall>i<32768. tr ! i = (int (ordinal (grouping_columns ?h) i) + 32768) mod 65536 - 32768"
    by blast
  from tr(3) have "tr ! 32767 = (int (ordinal (grouping_columns ?h) 32767) + 32768) mod 65536 - 32768"
    by simp
  then have "tr ! 32767 = - 32768" unfolding o by simp
  then have "get_item (fst (transform DuplicateIndex ?h ?req)) ''trace'' 32767 = Inr (- 32768)"
    unfolding tr(1) by (simp add: get_item_dict_set tr(2) del: dict_set.simps)
  with a2 a4 o show ?thesis by blast
qed

section \<open>Trace count and order under the transforms\<close>

lemma set_dict_set: "set (dict_set d k v) \<subseteq> insert (k, v) (set d)"
  by (induction d) (auto split: if_splits)

lemma filter_dict_set:
  "filter (\<lambda>p. fst p \<noteq> k) (dict_set d k v) = filter (\<lambda>p. fst p \<noteq> k) d"
  by (induction d) auto

lemma arr_of_dict_set: "arr_of (dict_set h k arr) k' = (if k' = k then arr else arr_of h k')"
  by (simp add: arr_of_def dict_get_dict_set)

lemma validate_required_keys:
  "validate cmd h req = Inr () \<Longrightarrow> cmd \<noteq> DuplicateIndex \<Longrightarrow> cmd \<noteq> NonBinned \<Longrightarrow>
   {''shot_point'', ''cable'', ''channel''} \<subseteq> set (dict_keys h)"
  by (cases cmd)
     (auto simp: AutoChannelWrap_validate_def ChannelWrap_validate_def CalculateCable_validate_def
        check_required_keys_def split: if_splits sum.splits)

lemma validate_auto_flags:
  "validate AutoChannelWrap h req = Inr () \<Longrightarrow>
   \<not> dict_has req ''ChannelWrap'' \<and> \<not> dict_has req ''CalculateCable''"
  by (auto simp: AutoChannelWrap_validate_def split: if_splits)

lemma arr_of_length:
  assumes "\<forall>(k, arr)\<in>set h. length arr = N" and "key \<in> set (dict_keys h)"
  shows "dict_get h key = Inr (arr_of h key)" and "length (arr_of h key) = N"
proof -
  from dict_get_keys[OF assms(2)] obtain arr where arr: "dict_get h key = Inr arr" by blast
  then show "dict_get h key = Inr (arr_of h key)" by (simp add: arr_of_def)
  from dict_get_mem[OF arr] assms(1) have "length arr = N" by auto
  then show "length (arr_of h key) = N" by (simp add: arr_of_Inr[OF arr])
qed

lemma map_snd_zip_fun:
  "length xs = length ys \<Longrightarrow> map g ys = map (\<lambda>(x, y). g y) (zip xs ys)"
  by (induction xs ys rule: list_induct2) auto

lemma transform_shape:
  assumes "\<forall>(k, arr)\<in>set h. length arr = N" and "transform cmd h req = (h', r)"
  shows "h' = h \<or>
     (\<exists>arr. h' = dict_set h (target cmd) arr \<and> length arr = N
        \<and> (target cmd \<in> set (dict_keys h) \<or> target cmd = ''trace'')
        \<and> (target cmd \<noteq> ''trace'' \<longrightarrow>
              length (arr_of h ''cable'') = N \<and> length (arr_of h ''channel'') = N
            \<and> (\<exists>F. arr = map F (zip (arr_of h ''cable'') (arr_of h ''channel'')))))"
proof (cases "validate cmd h req")
  case (Inl e)
  from transform_validate_fail[OF Inl] assms(2) show ?thesis by simp
next
  case (Inr u)
  then have v: "validate cmd h req = Inr ()" by simp
  show ?thesis
  proof (cases "cmd = DuplicateIndex \<or> cmd = NonBinned")
    case True
    then have tg: "target cmd = ''trace''" by auto
    have t: "transform cmd h req = analyze_non_indexed_headers h int16"
      by (rule validate_duplicate_transform[OF True v])
    show ?thesis
    proof (cases "grouping_names h = []")
      case True
      from analyze_non_indexed_headers_no_group[OF True, of int16] t assms(2)
      show ?thesis by simp
    next
      case False
      from analyze_non_indexed_headers_eq[OF assms(1) False, of int16] t assms(2) tg
      show ?thesis by auto
    qed
  next
    case False
    then have nd: "cmd \<noteq> DuplicateIndex" "cmd \<noteq> NonBinned" by simp_all
    from validate_required_keys[OF v nd]
    have keys: "{''shot_point'', ''cable'', ''channel''} \<subseteq> set (dict_keys h)" .
    then have kc: "''cable'' \<in> set (dict_keys h)" and kh: "''channel'' \<in> set (dict_keys h)"
      by simp_all
    note cab = arr_of_length[OF assms(1) kc]
    note chan = arr_of_length[OF assms(1) kh]
    have tk: "target cmd \<in> set (dict_keys h)" using nd kc kh by (cases cmd) simp_all
    have wrapF: "\<exists>F. map g (arr_of h ''channel'')
        = map F (zip (arr_of h ''cable'') (arr_of h ''channel''))" for g :: "int \<Rightarrow> int"
      using map_snd_zip_fun[of "arr_of h ''cable''" "arr_of h ''channel''" g] cab(2) chan(2)
      by auto
    consider (auto) "cmd = AutoChannelWrap" | (wrap) "cmd = ChannelWrap" | (calc) "cmd = CalculateCable"
      using nd by (cases cmd) simp_all
    then show ?thesis
    proof cases
      case auto
      have fl: "\<not> dict_has req ''ChannelWrap''" "\<not> dict_has req ''CalculateCable''"
        using validate_auto_flags[OF v[unfolded auto]] by simp_all
      have ll: "length (arr_of h ''cable'') = length (arr_of h ''channel'')"
        using cab(2) chan(2) by simp
      from auto_channel_wrap_eq[OF keys cab(1) chan(1) ll fl]
      obtain g where
        g: "g = A \<or> g = B"
        "g = B \<longrightarrow> transform AutoChannelWrap h req
           = (dict_set h ''channel''
               (map (\<lambda>(cb, ch). ch - chan_lo (arr_of h ''cable'') (arr_of h ''channel'') cb + 1)
                  (zip (arr_of h ''cable'') (arr_of h ''channel''))), Inr ())"
        "g = A \<longrightarrow> transform AutoChannelWrap h req = (h, Inr ())"
        by auto
      from g(1) show ?thesis
      proof
        assume "g = A"
        with g(3) assms(2) auto show ?thesis by simp
      next
        assume "g = B"
        with g(2) assms(2) auto
        have "h' = dict_set h ''channel''
               (map (\<lambda>(cb, ch). ch - chan_lo (arr_of h ''cable'') (arr_of h ''channel'') cb + 1)
                  (zip (arr_of h ''cable'') (arr_of h ''channel'')))"
          by simp
        then show ?thesis using auto cab(2) chan(2) kh by auto
      qed
    next
      case wrap
      from v assms(2) chan(1)
      have "h' = h \<or> (\<exists>g. h' = dict_set h ''channel'' (map g (arr_of h ''channel'')))"
        by (auto simp: wrap ChannelWrap_transform_def split: sum.splits)
      then show ?thesis using wrap cab(2) chan(2) kh wrapF by auto
    next
      case calc
      from v assms(2) chan(1)
      have "h' = h \<or> (\<exists>g. h' = dict_set h ''cable'' (map g (arr_of h ''channel'')))"
        by (auto simp: calc CalculateCable_transform_def split: sum.splits)
      then show ?thesis using calc cab(2) chan(2) kc wrapF by auto
    qed
  qed
qed


text \<open>
  Claim C8. Let every array of the header set have \<open>N\<close> entries. After the transform of
  any command, whether it returns or raises, every array of the header set has \<open>N\<close>
  entries, the new \<^verbatim>\<open>trace\<close> array included; every header other than the one the command
  writes is the same array at the same place of the dictionary; the keys are the same, or
  the same followed by \<^verbatim>\<open>trace\<close>; and the rewritten \<^verbatim>\<open>cable\<close> and \<^verbatim>\<open>channel\<close> values of a
  trace depend only on that trace's own cable and channel, so that no array is reordered.
\<close>

theorem transform_keeps_trace_count:
  assumes "\<forall>(k, arr)\<in>set h. length arr = N" and "transform cmd h req = (h', r)"
  shows "(\<forall>(k, arr)\<in>set h'. length arr = N)
       \<and> filter (\<lambda>p. fst p \<noteq> target cmd) h' = filter (\<lambda>p. fst p \<noteq> target cmd) h
       \<and> (dict_keys h' = dict_keys h \<or> dict_keys h' = dict_keys h @ [''trace''])
       \<and> (\<forall>key i j. (key = ''cable'' \<or> key = ''channel'') \<and> i < N \<and> j < N
              \<and> arr_of h ''cable'' ! i = arr_of h ''cable'' ! j
              \<and> arr_of h ''channel'' ! i = arr_of h ''channel'' ! j
            \<longrightarrow> arr_of h' key ! i = arr_of h' key ! j)"
proof -
  from transform_shape[OF assms] show ?thesis
  proof
    assume "h' = h"
    with assms(1) show ?thesis by auto
  next
    assume "\<exists>arr. h' = dict_set h (target cmd) arr \<and> length arr = N
        \<and> (target cmd \<in> set (dict_keys h) \<or> target cmd = ''trace'')
        \<and> (target cmd \<noteq> ''trace'' \<longrightarrow>
              length (arr_of h ''cable'') = N \<and> length (arr_of h ''channel'') = N
            \<and> (\<exists>F. arr = map F (zip (arr_of h ''cable'') (arr_of h ''channel''))))"
    then obtain arr where
      h': "h' = dict_set h (target cmd) arr" and len: "length arr = N"
      and tk: "target cmd \<in> set (dict_keys h) \<or> target cmd = ''trace''"
      and sh: "target cmd \<noteq> ''trace'' \<Longrightarrow>
              length (arr_of h ''cable'') = N \<and> length (arr_of h ''channel'') = N
            \<and> (\<exists>F. arr = map F (zip (arr_of h ''cable'') (arr_of h ''channel'')))"
      by blast
    have c1: "\<forall>(k, arr)\<in>set h'. length arr = N"
      using set_dict_set[of h "target cmd" arr] assms(1) len unfolding h' by auto
    have c2: "filter (\<lambda>p. fst p \<noteq> target cmd) h' = filter (\<lambda>p. fst p \<noteq> target cmd) h"
      unfolding h' by (rule filter_dict_set)
    have c3: "dict_keys h' = dict_keys h \<or> dict_keys h' = dict_keys h @ [''trace'']"
      using tk unfolding h' by (auto simp: dict_keys_dict_set)
    have c4: "arr_of h' key ! i = arr_of h' key ! j"
      if "(key = ''cable'' \<or> key = ''channel'') \<and> i < N \<and> j < N
              \<and> arr_of h ''cable'' ! i = arr_of h ''cable'' ! j
              \<and> arr_of h ''channel'' ! i = arr_of h ''channel'' ! j" for key i j
    proof (cases "key = target cmd")
      case False
      with that show ?thesis unfolding h' by (auto simp: arr_of_dict_set)
    next
      case True
      with that have "target cmd \<noteq> ''trace''" by auto
      from sh[OF this] obtain F where
        F: "arr = map F (zip (arr_of h ''cable'') (arr_of h ''channel''))"
        and l: "length (arr_of h ''cable'') = N" "length (arr_of h ''channel'') = N"
        by blast
      have "arr ! i = F (arr_of h ''cable'' ! i, arr_of h ''channel'' ! i)"
        "arr ! j = F (arr_of h ''cable'' ! j, arr_of h ''channel'' ! j)"
        using that l by (simp_all add: F)
      with that True show ?thesis unfolding h' by (simp add: arr_of_dict_set)
    qed
    from c1 c2 c3 c4 show ?thesis by blast
  qed
qed

theorem transform_keeps_trace_count_witness:
  "transform ChannelWrap [(''shot_point'', [7, 7, 7]), (''cable'', [1, 1, 2]), (''channel'', [1, 2, 3])]
       [(''ChannelWrap'', PBool True), (''ChannelsPerCable'', PInt 2)]
     = ([(''shot_point'', [7, 7, 7]), (''cable'', [1, 1, 2]), (''channel'', [1, 2, 1])], Inr ())
   \<and> filter (\<lambda>p. fst p \<noteq> target ChannelWrap)
        [(''shot_point'', [7, 7, 7]), (''cable'', [1, 1, 2]), (''channel'', [1, 2, 1 :: int])]
     = filter (\<lambda>p. fst p \<noteq> target ChannelWrap)
        [(''shot_point'', [7, 7, 7]), (''cable'', [1, 1, 2]), (''channel'', [1, 2, 3])]
   \<and> length [1, 2, 1 :: int] = 3"
proof -
  let ?h = "[(''shot_point'', [7, 7, 7]), (''cable'', [1, 1, 2]), (''channel'', [1, 2, 3])] :: headers"
  let ?h' = "[(''shot_point'', [7, 7, 7]), (''cable'', [1, 1, 2]), (''channel'', [1, 2, 1])] :: headers"
  let ?req = "[(''ChannelWrap'', PBool True), (''ChannelsPerCable'', PInt 2)]"
  have a1: "\<forall>(k, arr)\<in>set ?h. length arr = 3" by simp
  have a2: "transform ChannelWrap ?h ?req = (?h', Inr ())"
    by (simp add: ChannelWrap_transform_def ChannelWrap_validate_def check_required_keys_def
        check_required_params_def dict_has_def dict_keys_def dict_get_def np_mod_def)
  from transform_keeps_trace_count[OF a1 a2]
  have "(\<forall>(k, arr)\<in>set ?h'. length arr = 3)
      \<and> filter (\<lambda>p. fst p \<noteq> target ChannelWrap) ?h' = filter (\<lambda>p. fst p \<noteq> target ChannelWrap) ?h"
    by blast
  then have "filter (\<lambda>p. fst p \<noteq> target ChannelWrap) ?h' = filter (\<lambda>p. fst p \<noteq> target ChannelWrap) ?h"
    and "length [1, 2, 1 :: int] = 3"
    by simp_all
  with a2 show ?thesis by blast
qed

end
